theory Spec2Isabelle
  imports Main
begin

section \<open>Atomic chess (ChessVar.py): the data model\<close>

text \<open>
  The class \<open>ChessVar\<close> has three data members: \<open>_turn\<close> and \<open>_game_state\<close> hold
  strings, \<open>_board\<close> holds a reference to a list of eight row lists of two-character
  strings. Python names refer to objects: \<open>test_board = self._board\<close> in
  \<open>atomic_landing\<close> binds a second name to the same list object, it copies nothing. The
  model therefore keeps the list objects in a store indexed by addresses; a board
  variable holds an address. No row list is ever bound to a name of its own or
  replaced, so a board object is stored as the value of its rows.

  Python raises where HOL would return an unspecified value: subscripts out of range
  raise IndexError, \<open>int\<close> and \<open>str.index\<close> raise ValueError. Every such place is a
  branch of the model that returns the error.
\<close>

datatype error = IndexError | ValueError

type_synonym board = "string list list"

type_synonym addr = nat

record game =
  turn :: string
  game_state :: string
  board :: addr
  heap :: "addr \<Rightarrow> board"

definition live :: "game \<Rightarrow> board" where
  \<comment> \<open>the list object that \<open>self._board\<close> refers to\<close>
  "live g = heap g (board g)"

subsection \<open>Python subscripts\<close>

definition py_index :: "nat \<Rightarrow> int \<Rightarrow> nat option" where
  \<comment> \<open>the position that the subscript \<open>i\<close> denotes in a sequence of \<open>n\<close> items: \<open>-1\<close>
      is the last item, and \<open>None\<close> stands for IndexError\<close>
  "py_index n i =
     (if 0 \<le> i \<and> i < int n then Some (nat i)
      else if - int n \<le> i \<and> i < 0 then Some (nat (i + int n))
      else None)"

definition py_get :: "'a list \<Rightarrow> int \<Rightarrow> error + 'a" where
  \<comment> \<open>\<open>xs[i]\<close>\<close>
  "py_get xs i =
     (case py_index (length xs) i of None \<Rightarrow> Inl IndexError | Some j \<Rightarrow> Inr (xs ! j))"

definition py_set :: "'a list \<Rightarrow> int \<Rightarrow> 'a \<Rightarrow> error + 'a list" where
  \<comment> \<open>\<open>xs[i] = v\<close>\<close>
  "py_set xs i v =
     (case py_index (length xs) i of None \<Rightarrow> Inl IndexError | Some j \<Rightarrow> Inr (xs[j := v]))"

definition get_cell :: "board \<Rightarrow> int \<Rightarrow> int \<Rightarrow> error + string" where
  \<comment> \<open>\<open>b[r][c]\<close>\<close>
  "get_cell b r c = (case py_get b r of Inl e \<Rightarrow> Inl e | Inr row \<Rightarrow> py_get row c)"

definition set_cell :: "board \<Rightarrow> int \<Rightarrow> int \<Rightarrow> string \<Rightarrow> error + board" where
  \<comment> \<open>\<open>b[r][c] = v\<close>: the row object \<open>b[r]\<close> is changed in place\<close>
  "set_cell b r c v =
     (case py_get b r of Inl e \<Rightarrow> Inl e
      | Inr row \<Rightarrow> (case py_set row c v of Inl e \<Rightarrow> Inl e | Inr row' \<Rightarrow> py_set b r row'))"

definition write_cell :: "addr \<Rightarrow> int \<Rightarrow> int \<Rightarrow> string \<Rightarrow> game \<Rightarrow> (error + unit) \<times> game" where
  \<comment> \<open>the assignment \<open>x[r][c] = v\<close> where the name \<open>x\<close> holds the address \<open>a\<close>\<close>
  "write_cell a r c v g =
     (case set_cell (heap g a) r c v of Inl e \<Rightarrow> (Inl e, g)
      | Inr b' \<Rightarrow> (Inr (), g\<lparr>heap := (heap g)(a := b')\<rparr>))"

fun str_index :: "string \<Rightarrow> char \<Rightarrow> int option" where
  \<comment> \<open>\<open>s.index(ch)\<close> for a one-character \<open>ch\<close>; \<open>None\<close> stands for ValueError\<close>
  "str_index [] ch = None"
| "str_index (x # xs) ch =
     (if x = ch then Some 0 else map_option (\<lambda>i. i + 1) (str_index xs ch))"

definition py_int :: "char \<Rightarrow> int option" where
  \<comment> \<open>\<open>int(ch)\<close> for a one-character string; \<open>None\<close> stands for ValueError. Among
      the 8-bit characters the decimal digits are \<open>0\<close> to \<open>9\<close>.\<close>
  "py_int ch = str_index ''0123456789'' ch"

definition truthy :: "bool option \<Rightarrow> bool" where
  \<comment> \<open>the test \<open>if validity:\<close>; a validator that falls off its end returns \<open>None\<close>\<close>
  "truthy v = (v = Some True)"

subsection \<open>The constructor\<close>

definition init_board :: board where
  "init_board =
    [[''WR'', ''WP'', ''00'', ''00'', ''00'', ''00'', ''BP'', ''BR''],
     [''WN'', ''WP'', ''00'', ''00'', ''00'', ''00'', ''BP'', ''BN''],
     [''WI'', ''WP'', ''00'', ''00'', ''00'', ''00'', ''BP'', ''BI''],
     [''WQ'', ''WP'', ''00'', ''00'', ''00'', ''00'', ''BP'', ''BQ''],
     [''WK'', ''WP'', ''00'', ''00'', ''00'', ''00'', ''BP'', ''BK''],
     [''WI'', ''WP'', ''00'', ''00'', ''00'', ''00'', ''BP'', ''BI''],
     [''WN'', ''WP'', ''00'', ''00'', ''00'', ''00'', ''BP'', ''BN''],
     [''WR'', ''WP'', ''00'', ''00'', ''00'', ''00'', ''BP'', ''BR'']]"

definition init :: game where
  \<comment> \<open>\<open>__init__\<close>: the one board object of a game is allocated here, at address 0\<close>
  "init = \<lparr>turn = ''WHITE'', game_state = ''UNFINISHED'', board = 0,
           heap = (\<lambda>_. [])(0 := init_board)\<rparr>"

definition get_game_state :: "game \<Rightarrow> string" where
  "get_game_state g = game_state g"

subsection \<open>The legality predicates\<close>

definition validate_pawn :: "game \<Rightarrow> int \<Rightarrow> int \<Rightarrow> string \<Rightarrow> int \<Rightarrow> int \<Rightarrow> bool option" where
  "validate_pawn g start_row start_col landing_space end_row end_col =
     (if start_col = 1 \<and> start_row = end_row \<and> turn g = ''WHITE'' then
        (if start_col + 1 = end_col \<or> start_col + 2 = end_col then
           (if landing_space = ''00'' then Some True else None)
         else None)
      else if start_col = 6 \<and> start_row = end_row \<and> turn g = ''BLACK'' then
        (if start_col - 1 = end_col \<or> start_col - 2 = end_col then
           (if landing_space = ''00'' then Some True else None)
         else None)
      else if start_row = end_row \<and> turn g = ''WHITE'' then
        (if start_col + 1 = end_col then
           (if landing_space = ''00'' then Some True else None)
         else None)
      else if start_row = end_row \<and> turn g = ''BLACK'' then
        (if start_col - 1 = end_col then
           (if landing_space = ''00'' then Some True else None)
         else None)
      else if abs (start_row - end_row) = 1 then
        (if (start_col + 1 = end_col \<and> turn g = ''WHITE'') \<and> landing_space \<noteq> ''00''
         then Some True
         else if (start_col - 1 = end_col \<and> turn g = ''BLACK'') \<and> landing_space \<noteq> ''00''
         then Some True
         else None)
      else Some False)"

fun scan :: "board \<Rightarrow> (int \<times> int) list \<Rightarrow> error + bool" where
  \<comment> \<open>the loop \<open>for i in range(..): if self._board[r(i)][c(i)] != '00': return False\<close>
      over the squares it visits, in order: \<open>Inr False\<close> when the loop returned False,
      \<open>Inr True\<close> when it ran to its end\<close>
  "scan b [] = Inr True"
| "scan b ((r, c) # sqs) =
     (case get_cell b r c of Inl e \<Rightarrow> Inl e
      | Inr v \<Rightarrow> if v \<noteq> ''00'' then Inr False else scan b sqs)"

definition or_else :: "error + bool \<Rightarrow> (error + bool option) \<Rightarrow> error + bool option" where
  \<comment> \<open>a loop followed by the rest of the function: the loop's \<open>return False\<close> and an
      exception both leave the function\<close>
  "or_else loop rest =
     (case loop of Inl e \<Rightarrow> Inl e | Inr completed \<Rightarrow> if completed then rest else Inr (Some False))"

definition validate_rook :: "game \<Rightarrow> int \<Rightarrow> int \<Rightarrow> int \<Rightarrow> int \<Rightarrow> error + bool option" where
  "validate_rook g start_row start_col end_row end_col =
     (if start_row = end_row then
        or_else (scan (live g) (map (\<lambda>i. (start_row, i)) [start_col + 1 .. end_col - 1]))
          (Inr (Some True))
      else if start_col = end_col then
        or_else (scan (live g) (map (\<lambda>i. (i, start_col)) [start_row + 1 .. end_row - 1]))
          (Inr (Some True))
      else Inr (Some False))"

definition validate_knight :: "int \<Rightarrow> int \<Rightarrow> int \<Rightarrow> int \<Rightarrow> bool option" where
  "validate_knight start_row start_col end_row end_col =
     (if abs (start_row - end_row) = 1 then
        (if abs (start_col - end_col) = 2 then Some True else None)
      else if abs (start_row - end_row) = 2 then
        (if abs (start_col - end_col) = 1 then Some True else None)
      else Some False)"

definition diagonal :: "game \<Rightarrow> int \<Rightarrow> int \<Rightarrow> int \<Rightarrow> int \<Rightarrow> error + bool option" where
  \<comment> \<open>the diagonal branch, the same text in \<open>validate_bishop\<close> and \<open>validate_queen\<close>:
      four \<open>if\<close> statements, one per direction, then \<open>return True\<close>\<close>
  "diagonal g start_row start_col end_row end_col =
     (let dist = abs (start_row - end_row) in
      or_else (if end_row > start_row \<and> end_col > start_col
               then scan (live g) (map (\<lambda>i. (start_row + i, start_col + i)) [1 .. dist - 1])
               else Inr True)
     (or_else (if end_row > start_row \<and> end_col < start_col
               then scan (live g) (map (\<lambda>i. (start_row + i, start_col - i)) [1 .. dist - 1])
               else Inr True)
     (or_else (if end_row < start_row \<and> end_col > start_col
               then scan (live g) (map (\<lambda>i. (start_row - i, start_col + i)) [1 .. dist - 1])
               else Inr True)
     (or_else (if end_row < start_row \<and> end_col < start_col
               then scan (live g) (map (\<lambda>i. (start_row - i, start_col - i)) [1 .. dist - 1])
               else Inr True)
     (Inr (Some True))))))"

definition validate_bishop :: "game \<Rightarrow> int \<Rightarrow> int \<Rightarrow> int \<Rightarrow> int \<Rightarrow> error + bool option" where
  "validate_bishop g start_row start_col end_row end_col =
     (if abs (start_row - end_row) = abs (start_col - end_col) then
        diagonal g start_row start_col end_row end_col
      else Inr (Some False))"

definition validate_queen :: "game \<Rightarrow> int \<Rightarrow> int \<Rightarrow> int \<Rightarrow> int \<Rightarrow> error + bool option" where
  "validate_queen g start_row start_col end_row end_col =
     (if abs (start_row - end_row) = abs (start_col - end_col) then
        diagonal g start_row start_col end_row end_col
      else if start_row = end_row then
        or_else (scan (live g) (map (\<lambda>i. (start_row, i)) [start_col + 1 .. end_col - 1]))
          (Inr (Some True))
      else if start_col = end_col then
        or_else (scan (live g) (map (\<lambda>i. (i, start_col)) [start_row + 1 .. end_row - 1]))
          (Inr (Some True))
      else Inr (Some False))"

definition validate_king :: "int \<Rightarrow> int \<Rightarrow> string \<Rightarrow> int \<Rightarrow> int \<Rightarrow> bool option" where
  "validate_king start_row start_col landing_space end_row end_col =
     (if abs (start_row - end_row) = 1 then
        (if start_col = end_col \<or> abs (start_col - end_col) = 1 then
           (if landing_space = ''00'' then Some True else None)
         else None)
      else if abs (start_col - end_col) = 1 then
        (if start_row = end_row \<or> abs (start_row - end_row) = 1 then
           (if landing_space = ''00'' then Some True else None)
         else None)
      else Some False)"

definition validate_move ::
  "game \<Rightarrow> string \<Rightarrow> int \<Rightarrow> int \<Rightarrow> string \<Rightarrow> int \<Rightarrow> int \<Rightarrow> error + bool option" where
  "validate_move g moving_piece start_row start_col landing_space end_row end_col =
     (if moving_piece = ''00'' then Inr (Some False)
      else if start_row = end_row \<and> start_col = end_col then Inr (Some False)
      else if turn g = ''WHITE'' \<and> CHR ''B'' \<in> set moving_piece then Inr (Some False)
      else if turn g = ''WHITE'' \<and> CHR ''W'' \<in> set landing_space then Inr (Some False)
      else if turn g = ''BLACK'' \<and> CHR ''W'' \<in> set moving_piece then Inr (Some False)
      else if turn g = ''BLACK'' \<and> CHR ''B'' \<in> set landing_space then Inr (Some False)
      else if CHR ''P'' \<in> set moving_piece then
        Inr (validate_pawn g start_row start_col landing_space end_row end_col)
      else if CHR ''R'' \<in> set moving_piece then
        validate_rook g start_row start_col end_row end_col
      else if CHR ''N'' \<in> set moving_piece then
        Inr (validate_knight start_row start_col end_row end_col)
      else if CHR ''I'' \<in> set moving_piece then
        validate_bishop g start_row start_col end_row end_col
      else if CHR ''Q'' \<in> set moving_piece then
        validate_queen g start_row start_col end_row end_col
      else if CHR ''K'' \<in> set moving_piece then
        Inr (validate_king start_row start_col landing_space end_row end_col)
      else Inr None)"

subsection \<open>The explosion and the kings\<close>

fun king_scan :: "board \<Rightarrow> bool \<times> bool \<Rightarrow> bool \<times> bool" where
  \<comment> \<open>the loop of \<open>check_king\<close> over the rows, on (black_present, white_present)\<close>
  "king_scan [] (black_present, white_present) = (black_present, white_present)"
| "king_scan (row # rows) (black_present, white_present) =
     king_scan rows
       (if ''BK'' \<in> set row then True else black_present,
        if ''WK'' \<in> set row then True else white_present)"

definition check_king :: "game \<Rightarrow> addr \<Rightarrow> bool \<times> game" where
  "check_king g chessboard =
     (case king_scan (heap g chessboard) (False, False) of
        (black_present, white_present) \<Rightarrow>
          if \<not> white_present \<and> \<not> black_present then (False, g)
          else if black_present \<and> white_present then (True, g)
          else if black_present then (True, g\<lparr>game_state := ''BLACK_WON''\<rparr>)
          else (True, g\<lparr>game_state := ''WHITE_WON''\<rparr>))"

definition blast_squares :: "int \<Rightarrow> int \<Rightarrow> (bool \<times> int \<times> int) list" where
  \<comment> \<open>the eight guarded neighbours in the order of the source: the edge test that
      guards each subscript, then the row and the column\<close>
  "blast_squares end_row end_col =
    [(end_col > 0, end_row, end_col - 1),
     (end_col < 7, end_row, end_col + 1),
     (end_row > 0, end_row - 1, end_col),
     (end_col > 0 \<and> end_row > 0, end_row - 1, end_col - 1),
     (end_col < 7 \<and> end_row > 0, end_row - 1, end_col + 1),
     (end_row < 7, end_row + 1, end_col),
     (end_col > 0 \<and> end_row < 7, end_row + 1, end_col - 1),
     (end_col < 7 \<and> end_row < 7, end_row + 1, end_col + 1)]"

fun clear_neighbours :: "addr \<Rightarrow> (bool \<times> int \<times> int) list \<Rightarrow> game \<Rightarrow> (error + unit) \<times> game" where
  \<comment> \<open>\<open>if guard and "P" not in x[r][c]: x[r][c] = '00'\<close>, one statement after the other\<close>
  "clear_neighbours a [] g = (Inr (), g)"
| "clear_neighbours a ((guard, r, c) # rest) g =
     (if guard then
        (case get_cell (heap g a) r c of Inl e \<Rightarrow> (Inl e, g)
         | Inr v \<Rightarrow>
             if CHR ''P'' \<notin> set v then
               (case write_cell a r c ''00'' g of
                  (Inl e, g') \<Rightarrow> (Inl e, g')
                | (Inr u, g') \<Rightarrow> clear_neighbours a rest g')
             else clear_neighbours a rest g)
      else clear_neighbours a rest g)"

definition explode :: "addr \<Rightarrow> int \<Rightarrow> int \<Rightarrow> game \<Rightarrow> (error + unit) \<times> game" where
  \<comment> \<open>lines 371 to 389 on \<open>test_board\<close>, and again lines 394 to 412 on \<open>self._board\<close>\<close>
  "explode a end_row end_col g =
     (case write_cell a end_row end_col ''00'' g of
        (Inl e, g') \<Rightarrow> (Inl e, g')
      | (Inr u, g') \<Rightarrow> clear_neighbours a (blast_squares end_row end_col) g')"

definition atomic_trial :: "game \<Rightarrow> int \<Rightarrow> int \<Rightarrow> (error + bool) \<times> game" where
  \<comment> \<open>lines 370 to 390 of \<open>atomic_landing\<close>: the name \<open>test_board\<close> receives the
      address held by \<open>self._board\<close>; the result is \<open>test_value\<close>\<close>
  "atomic_trial g end_row end_col =
     (let test_board = board g in
      case explode test_board end_row end_col g of
        (Inl e, g1) \<Rightarrow> (Inl e, g1)
      | (Inr u, g1) \<Rightarrow> (case check_king g1 test_board of (test_value, g2) \<Rightarrow> (Inr test_value, g2)))"

definition atomic_landing :: "game \<Rightarrow> int \<Rightarrow> int \<Rightarrow> (error + bool) \<times> game" where
  "atomic_landing g end_row end_col =
     (case atomic_trial g end_row end_col of
        (Inl e, g2) \<Rightarrow> (Inl e, g2)
      | (Inr test_value, g2) \<Rightarrow>
          if test_value = False then (Inr False, g2)
          else (case explode (board g2) end_row end_col g2 of
                  (Inl e, g3) \<Rightarrow> (Inl e, g3)
                | (Inr u, g3) \<Rightarrow> (case check_king g3 (board g3) of (v, g4) \<Rightarrow> (Inr True, g4))))"

subsection \<open>make_move\<close>

definition letters :: string where
  "letters = ''abcdefgh''"

definition coords :: "string \<Rightarrow> error + int \<times> int" where
  \<comment> \<open>\<open>row = letters.index(pos[0]); col = int(pos[1]) - 1\<close>, lines 62-63 and 71-72\<close>
  "coords pos =
     (case py_get pos 0 of Inl e \<Rightarrow> Inl e
      | Inr p0 \<Rightarrow>
     (case str_index letters p0 of None \<Rightarrow> Inl ValueError
      | Some row \<Rightarrow>
     (case py_get pos 1 of Inl e \<Rightarrow> Inl e
      | Inr p1 \<Rightarrow>
     (case py_int p1 of None \<Rightarrow> Inl ValueError
      | Some n \<Rightarrow> Inr (row, n - 1)))))"

definition flip_turn :: "game \<Rightarrow> game" where
  \<comment> \<open>lines 92 to 95\<close>
  "flip_turn g = (if turn g = ''WHITE'' then g\<lparr>turn := ''BLACK''\<rparr> else g\<lparr>turn := ''WHITE''\<rparr>)"

definition finish_move :: "game \<Rightarrow> int \<Rightarrow> int \<Rightarrow> (error + bool) \<times> game" where
  \<comment> \<open>lines 89 to 97: empty the start square, change the turn, return True\<close>
  "finish_move g start_row start_col =
     (case write_cell (board g) start_row start_col ''00'' g of
        (Inl e, g') \<Rightarrow> (Inl e, g')
      | (Inr u, g') \<Rightarrow> (Inr True, flip_turn g'))"

definition apply_move ::
  "game \<Rightarrow> string \<Rightarrow> int \<Rightarrow> int \<Rightarrow> string \<Rightarrow> int \<Rightarrow> int \<Rightarrow> (error + bool) \<times> game" where
  \<comment> \<open>lines 80 to 99\<close>
  "apply_move g moving_piece start_row start_col landing_space end_row end_col =
     (case validate_move g moving_piece start_row start_col landing_space end_row end_col of
        Inl e \<Rightarrow> (Inl e, g)
      | Inr validity \<Rightarrow>
          if truthy validity then
            (if landing_space \<noteq> ''00'' then
               (case atomic_landing g end_row end_col of
                  (Inl e, g') \<Rightarrow> (Inl e, g')
                | (Inr atomic, g') \<Rightarrow>
                    if \<not> atomic then (Inr False, g')
                    else finish_move g' start_row start_col)
             else
               (case write_cell (board g) end_row end_col moving_piece g of
                  (Inl e, g') \<Rightarrow> (Inl e, g')
                | (Inr u, g') \<Rightarrow> finish_move g' start_row start_col))
          else (Inr False, g))"

definition evaluate :: "error + 'a \<Rightarrow> game \<Rightarrow> ('a \<Rightarrow> (error + bool) \<times> game) \<Rightarrow> (error + bool) \<times> game" where
  \<comment> \<open>an expression of \<open>make_move\<close> that may raise, evaluated in state \<open>g\<close>, and
      the statements after it: the exception leaves \<open>make_move\<close> with the state as it is\<close>
  "evaluate m g rest = (case m of Inl e \<Rightarrow> (Inl e, g) | Inr x \<Rightarrow> rest x)"

definition make_move :: "game \<Rightarrow> string \<Rightarrow> string \<Rightarrow> (error + bool) \<times> game" where
  "make_move g start_pos end_pos =
     (if game_state g \<noteq> ''UNFINISHED'' then (Inr False, g)
      else evaluate (py_get start_pos 0) g (\<lambda>s0.
      if s0 \<notin> set letters then (Inr False, g)
      else evaluate (py_get end_pos 0) g (\<lambda>e0.
      if e0 \<notin> set letters then (Inr False, g)
      else evaluate (coords start_pos) g (\<lambda>(start_row, start_col).
      if 0 > start_row \<or> 0 > start_col then (Inr False, g)
      else if 7 < start_row \<or> 7 < start_col then (Inr False, g)
      else evaluate (get_cell (live g) start_row start_col) g (\<lambda>moving_piece.
      evaluate (coords end_pos) g (\<lambda>(end_row, end_col).
      if 0 > end_row \<or> 0 > end_col then (Inr False, g)
      else if 7 < end_row \<or> 7 < end_col then (Inr False, g)
      else evaluate (get_cell (live g) end_row end_col) g (\<lambda>landing_space.
      apply_move g moving_piece start_row start_col landing_space end_row end_col)))))))"

fun play :: "game \<Rightarrow> (string \<times> string) list \<Rightarrow> game" where
  \<comment> \<open>a caller that makes one \<open>make_move\<close> call after the other on the same object\<close>
  "play g [] = g"
| "play g ((start_pos, end_pos) # rest) = play (snd (make_move g start_pos end_pos)) rest"

subsection \<open>Positions reached by play from the initial position\<close>

definition position_rook :: game where
  \<comment> \<open>after White's a2-a3: Black to move, the black rook a8 behind its pawn a7\<close>
  "position_rook = play init [(''a2'', ''a3'')]"

definition position_pawns :: game where
  \<comment> \<open>after e2-e4 d7-d5: the white pawn e4 can capture the black pawn d5\<close>
  "position_pawns = play init [(''e2'', ''e4''), (''d7'', ''d5'')]"

definition position_knight :: game where
  \<comment> \<open>the white knight on e5 can capture the pawn f7, next to the black king e8\<close>
  "position_knight =
     play init [(''g1'', ''f3''), (''a7'', ''a6''), (''f3'', ''e5''), (''a6'', ''a5'')]"

definition position_kings :: game where
  \<comment> \<open>the white king on d4 and the black king on d6, either side of the black pawn
      d5, which the white pawn e4 can capture\<close>
  "position_kings =
     play init [(''e2'', ''e4''), (''d7'', ''d5''), (''e1'', ''e2''), (''e8'', ''d7''),
                (''e2'', ''d3''), (''d7'', ''d6''), (''d3'', ''d4''), (''a7'', ''a6'')]"


definition position_won :: game where
  \<comment> \<open>after the knight's capture on f7 has destroyed the black king\<close>
  "position_won = play position_knight [(''e5'', ''f7'')]"

definition position_jump :: game where
  \<comment> \<open>a white knight on a3, in front of the white pawn a2; White to move\<close>
  "position_jump = play init [(''b1'', ''a3''), (''h7'', ''h6'')]"

definition position_jump_black :: game where
  \<comment> \<open>a black knight on a6, in front of the black pawn a7; Black to move\<close>
  "position_jump_black = play init [(''a2'', ''a3''), (''b8'', ''a6''), (''a3'', ''a4'')]"

subsection \<open>Predicates of the statements\<close>

definition shape :: "board \<Rightarrow> bool" where
  \<comment> \<open>eight rows of eight cells\<close>
  "shape b = (length b = 8 \<and> list_all (\<lambda>row. length row = 8) b)"

definition piece_codes :: "string list" where
  "piece_codes =
     [''WP'', ''WR'', ''WN'', ''WI'', ''WQ'', ''WK'',
      ''BP'', ''BR'', ''BN'', ''BI'', ''BQ'', ''BK'']"

definition cells_ok :: "board \<Rightarrow> bool" where
  \<comment> \<open>every one of the 64 cells holds the empty marker or a piece code\<close>
  "cells_ok b = (shape b \<and> list_all (list_all (\<lambda>v. v \<in> set (''00'' # piece_codes))) b)"

definition on_board :: "int \<Rightarrow> int \<Rightarrow> bool" where
  "on_board r c = (0 \<le> r \<and> r \<le> 7 \<and> 0 \<le> c \<and> c \<le> 7)"


definition holds_P :: "board \<Rightarrow> int \<Rightarrow> int \<Rightarrow> bool" where
  \<comment> \<open>the test \<open>"P" in b[r][c]\<close> of the explosion: the cell holds a pawn\<close>
  "holds_P b r c = (case get_cell b r c of Inl e \<Rightarrow> False | Inr v \<Rightarrow> CHR ''P'' \<in> set v)"

definition adjacent :: "int \<Rightarrow> int \<Rightarrow> int \<Rightarrow> int \<Rightarrow> bool" where
  \<comment> \<open>\<open>(r, c)\<close> is one of the eight squares around \<open>(er, ec)\<close>\<close>
  "adjacent er ec r c = (abs (r - er) \<le> 1 \<and> abs (c - ec) \<le> 1 \<and> \<not> (r = er \<and> c = ec))"

definition verdict :: "game \<Rightarrow> bool \<Rightarrow> bool \<Rightarrow> string" where
  \<comment> \<open>the game state that \<open>check_king\<close> leaves, given which kings it found\<close>
  "verdict g black_present white_present =
     (if black_present = white_present then game_state g
      else if black_present then ''BLACK_WON'' else ''WHITE_WON'')"

section \<open>Reading and writing an eight by eight board\<close>

lemma py_get_in_range:
  "0 \<le> i \<Longrightarrow> i < int (length xs) \<Longrightarrow> py_get xs i = Inr (xs ! nat i)"
  by (simp add: py_get_def py_index_def)

lemma py_set_in_range:
  "0 \<le> i \<Longrightarrow> i < int (length xs) \<Longrightarrow> py_set xs i v = Inr (xs[nat i := v])"
  by (simp add: py_set_def py_index_def)

lemma shape_length: "shape b \<Longrightarrow> length b = 8"
  by (simp add: shape_def)

lemma shape_row: "shape b \<Longrightarrow> i < 8 \<Longrightarrow> length (b ! i) = 8"
  by (simp add: shape_def list_all_length)

lemma shape_update:
  assumes "shape b"
  shows "shape (b[i := (b ! i)[j := v]])"
proof -
  have "length (b[i := (b ! i)[j := v]] ! n) = 8" if "n < 8" for n
  proof (cases "n = i")
    case True
    with that assms show ?thesis
      by (simp add: shape_length shape_row)
  next
    case False
    with that assms show ?thesis
      by (simp add: shape_row)
  qed
  with assms show ?thesis
    by (simp add: shape_def list_all_length)
qed

lemma on_board_nat: "on_board r c \<Longrightarrow> nat r < 8 \<and> nat c < 8"
  by (auto simp: on_board_def)

lemma get_cell_shape:
  assumes "shape b" "on_board r c"
  shows "get_cell b r c = Inr (b ! nat r ! nat c)"
proof -
  from assms have r: "0 \<le> r" "r < int (length b)" and c: "0 \<le> c" "c < 8"
    by (simp_all add: on_board_def shape_length)
  from assms r have "length (b ! nat r) = 8"
    by (intro shape_row) (simp_all add: shape_length)
  with c have "py_get (b ! nat r) c = Inr (b ! nat r ! nat c)"
    by (simp add: py_get_in_range)
  with r show ?thesis
    by (simp add: get_cell_def py_get_in_range)
qed

lemma set_cell_shape:
  assumes "shape b" "on_board r c"
  shows "set_cell b r c v = Inr (b[nat r := (b ! nat r)[nat c := v]])"
proof -
  from assms have r: "0 \<le> r" "r < int (length b)" and c: "0 \<le> c" "c < 8"
    by (simp_all add: on_board_def shape_length)
  from assms r have "length (b ! nat r) = 8"
    by (intro shape_row) (simp_all add: shape_length)
  with c have "py_set (b ! nat r) c v = Inr ((b ! nat r)[nat c := v])"
    by (simp add: py_set_in_range)
  with r show ?thesis
    by (simp add: set_cell_def py_get_in_range py_set_in_range)
qed

lemma set_cell_props:
  assumes "shape b" "on_board r c"
  shows "\<exists>b'. set_cell b r c v = Inr b' \<and> shape b' \<and>
           (\<forall>r' c'. on_board r' c' \<longrightarrow>
              get_cell b' r' c' = (if r' = r \<and> c' = c then Inr v else get_cell b r' c'))"
proof (intro exI conjI allI impI)
  let ?b' = "b[nat r := (b ! nat r)[nat c := v]]"
  show "set_cell b r c v = Inr ?b'"
    using assms by (rule set_cell_shape)
  show sh: "shape ?b'"
    using assms(1) by (rule shape_update)
  fix r' c'
  assume ob: "on_board r' c'"
  from assms ob have bounds: "nat r < length b" "nat c < length (b ! nat r)"
    "nat r' < length b" "nat c' < length (b ! nat r')"
    by (simp_all add: on_board_nat shape_length shape_row)
  from assms(2) ob have eqs: "nat r' = nat r \<longleftrightarrow> r' = r" "nat c' = nat c \<longleftrightarrow> c' = c"
    by (auto simp: on_board_def)
  have "?b' ! nat r' ! nat c' = (if r' = r \<and> c' = c then v else b ! nat r' ! nat c')"
    using bounds eqs by (auto simp: nth_list_update)
  then show "get_cell ?b' r' c' = (if r' = r \<and> c' = c then Inr v else get_cell b r' c')"
    using get_cell_shape [OF sh ob] get_cell_shape [OF assms(1) ob] by simp
qed

lemma board_ext:
  assumes "shape b" "shape b'"
    and "\<And>r c. on_board r c \<Longrightarrow> get_cell b r c = get_cell b' r c"
  shows "b = b'"
proof (rule nth_equalityI)
  show "length b = length b'"
    using assms by (simp add: shape_length)
next
  fix i
  assume i: "i < length b"
  then have i8: "i < 8"
    using assms(1) by (simp add: shape_length)
  show "b ! i = b' ! i"
  proof (rule nth_equalityI)
    show "length (b ! i) = length (b' ! i)"
      using assms i8 by (simp add: shape_row)
  next
    fix j
    assume "j < length (b ! i)"
    then have j8: "j < 8"
      using assms(1) i8 by (simp add: shape_row)
    from i8 j8 have ob: "on_board (int i) (int j)"
      by (simp add: on_board_def)
    from assms(3) [OF ob] get_cell_shape [OF assms(1) ob] get_cell_shape [OF assms(2) ob]
    show "b ! i ! j = b' ! i ! j"
      by simp
  qed
qed

lemma write_cell_props:
  assumes "shape (heap g a)" "on_board r c"
  shows "\<exists>b'. write_cell a r c v g = (Inr (), g\<lparr>heap := (heap g)(a := b')\<rparr>) \<and> shape b' \<and>
           (\<forall>r' c'. on_board r' c' \<longrightarrow>
              get_cell b' r' c' = (if r' = r \<and> c' = c then Inr v else get_cell (heap g a) r' c'))"
proof -
  from set_cell_props [OF assms, of v] obtain b' where
    b': "set_cell (heap g a) r c v = Inr b'" "shape b'"
      "\<forall>r' c'. on_board r' c' \<longrightarrow>
              get_cell b' r' c' = (if r' = r \<and> c' = c then Inr v else get_cell (heap g a) r' c')"
    by blast
  from b'(1) have "write_cell a r c v g = (Inr (), g\<lparr>heap := (heap g)(a := b')\<rparr>)"
    by (simp add: write_cell_def)
  with b'(2,3) show ?thesis
    by blast
qed

lemma same_heap: "g\<lparr>heap := (heap g)(a := heap g a)\<rparr> = g"
  by simp

lemma clear_neighbours_props:
  assumes "shape (heap g a)"
    and "\<forall>(guard, r, c) \<in> set sqs. guard \<longrightarrow> on_board r c"
  shows "\<exists>b'. clear_neighbours a sqs g = (Inr (), g\<lparr>heap := (heap g)(a := b')\<rparr>) \<and> shape b' \<and>
           (\<forall>r c. on_board r c \<longrightarrow>
              get_cell b' r c =
                (if (True, r, c) \<in> set sqs \<and> \<not> holds_P (heap g a) r c then Inr ''00''
                 else get_cell (heap g a) r c))"
  using assms
proof (induction sqs arbitrary: g)
  case Nil
  have "clear_neighbours a [] g = (Inr (), g\<lparr>heap := (heap g)(a := heap g a)\<rparr>)"
    by simp
  with Nil show ?case
    by (intro exI [of _ "heap g a"]) simp
next
  case (Cons sq sqs)
  obtain guard r c where sq: "sq = (guard, r, c)"
    by (cases sq)
  from Cons.prems(2) have rest: "\<forall>(guard, r, c) \<in> set sqs. guard \<longrightarrow> on_board r c"
    by simp
  let ?b = "heap g a"
  show ?case
  proof (cases "guard \<and> \<not> holds_P ?b r c")
    case True
    with Cons.prems(2) sq have ob: "on_board r c"
      by simp
    from get_cell_shape [OF Cons.prems(1) ob] obtain v where v: "get_cell ?b r c = Inr v"
      by blast
    with True have noP: "CHR ''P'' \<notin> set v"
      by (simp add: holds_P_def)
    from write_cell_props [OF Cons.prems(1) ob, of "''00''"] obtain b1 where
      b1: "write_cell a r c ''00'' g = (Inr (), g\<lparr>heap := (heap g)(a := b1)\<rparr>)" "shape b1"
        "\<forall>r' c'. on_board r' c' \<longrightarrow>
              get_cell b1 r' c' = (if r' = r \<and> c' = c then Inr ''00'' else get_cell ?b r' c')"
      by blast
    let ?g1 = "g\<lparr>heap := (heap g)(a := b1)\<rparr>"
    have sh1: "shape (heap ?g1 a)"
      using b1(2) by simp
    from Cons.IH [OF sh1 rest] obtain b' where
      raw: "clear_neighbours a sqs ?g1 = (Inr (), ?g1\<lparr>heap := (heap ?g1)(a := b')\<rparr>)" "shape b'"
        "\<forall>r' c'. on_board r' c' \<longrightarrow>
              get_cell b' r' c' =
                (if (True, r', c') \<in> set sqs \<and> \<not> holds_P (heap ?g1 a) r' c' then Inr ''00''
                 else get_cell (heap ?g1 a) r' c')"
      by blast
    have b': "clear_neighbours a sqs ?g1 = (Inr (), g\<lparr>heap := (heap g)(a := b')\<rparr>)" "shape b'"
        "\<forall>r' c'. on_board r' c' \<longrightarrow>
              get_cell b' r' c' =
                (if (True, r', c') \<in> set sqs \<and> \<not> holds_P b1 r' c' then Inr ''00''
                 else get_cell b1 r' c')"
      using raw by simp_all
    have run: "clear_neighbours a (sq # sqs) g = (Inr (), g\<lparr>heap := (heap g)(a := b')\<rparr>)"
      using True sq v noP b1(1) b'(1) by simp
    have cells: "get_cell b' r' c' =
                (if (True, r', c') \<in> set (sq # sqs) \<and> \<not> holds_P ?b r' c' then Inr ''00''
                 else get_cell ?b r' c')" if ob': "on_board r' c'" for r' c'
    proof (cases "r' = r \<and> c' = c")
      case here: True
      from b1(3) ob' have "get_cell b1 r' c' = (if r' = r \<and> c' = c then Inr ''00'' else get_cell ?b r' c')"
        by blast
      with here have zero: "get_cell b1 r' c' = Inr ''00''"
        by simp
      from b'(3) ob' have "get_cell b' r' c' =
                (if (True, r', c') \<in> set sqs \<and> \<not> holds_P b1 r' c' then Inr ''00''
                 else get_cell b1 r' c')"
        by blast
      with zero have "get_cell b' r' c' = Inr ''00''"
        by simp
      with here True sq show ?thesis
        by simp
    next
      case False
      from b1(3) ob' have "get_cell b1 r' c' = (if r' = r \<and> c' = c then Inr ''00'' else get_cell ?b r' c')"
        by blast
      with False have same: "get_cell b1 r' c' = get_cell ?b r' c'"
        by auto
      then have sameP: "holds_P b1 r' c' = holds_P ?b r' c'"
        by (simp add: holds_P_def)
      from b'(3) ob' have "get_cell b' r' c' =
                (if (True, r', c') \<in> set sqs \<and> \<not> holds_P b1 r' c' then Inr ''00''
                 else get_cell b1 r' c')"
        by blast
      with same sameP False sq show ?thesis
        by auto
    qed
    from run b'(2) cells show ?thesis
      by blast
  next
    case False
    have skip: "clear_neighbours a (sq # sqs) g = clear_neighbours a sqs g"
    proof (cases guard)
      case True
      with Cons.prems(2) sq have ob: "on_board r c"
        by simp
      from get_cell_shape [OF Cons.prems(1) ob] obtain v where v: "get_cell ?b r c = Inr v"
        by blast
      with True False have "CHR ''P'' \<in> set v"
        by (simp add: holds_P_def)
      with sq True v show ?thesis
        by simp
    next
      case False
      with sq show ?thesis
        by simp
    qed
    from Cons.IH [OF Cons.prems(1) rest] obtain b' where
      b': "clear_neighbours a sqs g = (Inr (), g\<lparr>heap := (heap g)(a := b')\<rparr>)" "shape b'"
        "\<forall>r' c'. on_board r' c' \<longrightarrow>
              get_cell b' r' c' =
                (if (True, r', c') \<in> set sqs \<and> \<not> holds_P ?b r' c' then Inr ''00''
                 else get_cell ?b r' c')"
      by blast
    have cells: "get_cell b' r' c' =
                (if (True, r', c') \<in> set (sq # sqs) \<and> \<not> holds_P ?b r' c' then Inr ''00''
                 else get_cell ?b r' c')" if ob': "on_board r' c'" for r' c'
    proof -
      from b'(3) ob' have "get_cell b' r' c' =
                (if (True, r', c') \<in> set sqs \<and> \<not> holds_P ?b r' c' then Inr ''00''
                 else get_cell ?b r' c')"
        by blast
      with False sq show ?thesis
        by auto
    qed
    from skip b'(1) have run: "clear_neighbours a (sq # sqs) g = (Inr (), g\<lparr>heap := (heap g)(a := b')\<rparr>)"
      by simp
    from run b'(2) cells show ?thesis
      by blast
  qed
qed

lemma blast_guarded:
  "on_board er ec \<Longrightarrow> \<forall>(guard, r, c) \<in> set (blast_squares er ec). guard \<longrightarrow> on_board r c"
  by (simp add: blast_squares_def on_board_def)

lemma abs_le_one: "abs (x - y :: int) \<le> 1 \<longleftrightarrow> x = y - 1 \<or> x = y \<or> x = y + 1"
  by arith

lemma adjacent_offsets:
  "adjacent er ec r c \<longleftrightarrow>
     (r = er \<and> c = ec - 1) \<or> (r = er \<and> c = ec + 1) \<or>
     (r = er - 1 \<and> c = ec) \<or> (r = er - 1 \<and> c = ec - 1) \<or> (r = er - 1 \<and> c = ec + 1) \<or>
     (r = er + 1 \<and> c = ec) \<or> (r = er + 1 \<and> c = ec - 1) \<or> (r = er + 1 \<and> c = ec + 1)"
  unfolding adjacent_def abs_le_one by auto

lemma blast_member_offsets:
  "(True, r, c) \<in> set (blast_squares er ec) \<longleftrightarrow>
     (ec > 0 \<and> r = er \<and> c = ec - 1) \<or> (ec < 7 \<and> r = er \<and> c = ec + 1) \<or>
     (er > 0 \<and> r = er - 1 \<and> c = ec) \<or>
     (ec > 0 \<and> er > 0 \<and> r = er - 1 \<and> c = ec - 1) \<or>
     (ec < 7 \<and> er > 0 \<and> r = er - 1 \<and> c = ec + 1) \<or>
     (er < 7 \<and> r = er + 1 \<and> c = ec) \<or>
     (ec > 0 \<and> er < 7 \<and> r = er + 1 \<and> c = ec - 1) \<or>
     (ec < 7 \<and> er < 7 \<and> r = er + 1 \<and> c = ec + 1)"
  by (simp add: blast_squares_def)

lemma blast_member:
  assumes "on_board er ec" "on_board r c"
  shows "(True, r, c) \<in> set (blast_squares er ec) \<longleftrightarrow> adjacent er ec r c"
proof
  assume "(True, r, c) \<in> set (blast_squares er ec)"
  then have "(ec > 0 \<and> r = er \<and> c = ec - 1) \<or> (ec < 7 \<and> r = er \<and> c = ec + 1) \<or>
     (er > 0 \<and> r = er - 1 \<and> c = ec) \<or>
     (ec > 0 \<and> er > 0 \<and> r = er - 1 \<and> c = ec - 1) \<or>
     (ec < 7 \<and> er > 0 \<and> r = er - 1 \<and> c = ec + 1) \<or>
     (er < 7 \<and> r = er + 1 \<and> c = ec) \<or>
     (ec > 0 \<and> er < 7 \<and> r = er + 1 \<and> c = ec - 1) \<or>
     (ec < 7 \<and> er < 7 \<and> r = er + 1 \<and> c = ec + 1)"
    unfolding blast_member_offsets .
  then show "adjacent er ec r c"
    unfolding adjacent_offsets by (elim disjE conjE) simp_all
next
  assume "adjacent er ec r c"
  then have offs: "(r = er \<and> c = ec - 1) \<or> (r = er \<and> c = ec + 1) \<or>
     (r = er - 1 \<and> c = ec) \<or> (r = er - 1 \<and> c = ec - 1) \<or> (r = er - 1 \<and> c = ec + 1) \<or>
     (r = er + 1 \<and> c = ec) \<or> (r = er + 1 \<and> c = ec - 1) \<or> (r = er + 1 \<and> c = ec + 1)"
    unfolding adjacent_offsets .
  from assms have bounds: "0 \<le> r" "r \<le> 7" "0 \<le> c" "c \<le> 7"
    by (simp_all add: on_board_def)
  from offs bounds show "(True, r, c) \<in> set (blast_squares er ec)"
    unfolding blast_member_offsets by (elim disjE conjE) simp_all
qed

lemma explode_props:
  assumes "shape (heap g a)" "on_board er ec"
  shows "\<exists>b'. explode a er ec g = (Inr (), g\<lparr>heap := (heap g)(a := b')\<rparr>) \<and> shape b' \<and>
           (\<forall>r c. on_board r c \<longrightarrow>
              get_cell b' r c =
                (if r = er \<and> c = ec then Inr ''00''
                 else if adjacent er ec r c \<and> \<not> holds_P (heap g a) r c then Inr ''00''
                 else get_cell (heap g a) r c))"
proof -
  let ?b = "heap g a"
  from write_cell_props [OF assms, of "''00''"] obtain b0 where
    b0: "write_cell a er ec ''00'' g = (Inr (), g\<lparr>heap := (heap g)(a := b0)\<rparr>)" "shape b0"
      "\<forall>r c. on_board r c \<longrightarrow>
         get_cell b0 r c = (if r = er \<and> c = ec then Inr ''00'' else get_cell ?b r c)"
    by blast
  let ?g0 = "g\<lparr>heap := (heap g)(a := b0)\<rparr>"
  have sh0: "shape (heap ?g0 a)"
    using b0(2) by simp
  from clear_neighbours_props [OF sh0 blast_guarded [OF assms(2)]] obtain b' where
    raw: "clear_neighbours a (blast_squares er ec) ?g0 =
            (Inr (), ?g0\<lparr>heap := (heap ?g0)(a := b')\<rparr>)" "shape b'"
      "\<forall>r c. on_board r c \<longrightarrow>
         get_cell b' r c =
           (if (True, r, c) \<in> set (blast_squares er ec) \<and> \<not> holds_P (heap ?g0 a) r c
            then Inr ''00'' else get_cell (heap ?g0 a) r c)"
    by blast
  have b': "clear_neighbours a (blast_squares er ec) ?g0 =
            (Inr (), g\<lparr>heap := (heap g)(a := b')\<rparr>)"
      "\<forall>r c. on_board r c \<longrightarrow>
         get_cell b' r c =
           (if (True, r, c) \<in> set (blast_squares er ec) \<and> \<not> holds_P b0 r c
            then Inr ''00'' else get_cell b0 r c)"
    using raw by simp_all
  have run: "explode a er ec g = (Inr (), g\<lparr>heap := (heap g)(a := b')\<rparr>)"
    using b0(1) b'(1) by (simp add: explode_def)
  have cells: "get_cell b' r c =
                (if r = er \<and> c = ec then Inr ''00''
                 else if adjacent er ec r c \<and> \<not> holds_P ?b r c then Inr ''00''
                 else get_cell ?b r c)" if ob: "on_board r c" for r c
  proof -
    from b0(3) ob have c0: "get_cell b0 r c = (if r = er \<and> c = ec then Inr ''00'' else get_cell ?b r c)"
      by blast
    from b'(2) ob have c1: "get_cell b' r c =
           (if (True, r, c) \<in> set (blast_squares er ec) \<and> \<not> holds_P b0 r c
            then Inr ''00'' else get_cell b0 r c)"
      by blast
    show ?thesis
    proof (cases "r = er \<and> c = ec")
      case True
      with c0 c1 show ?thesis
        by simp
    next
      case False
      with c0 have same: "get_cell b0 r c = get_cell ?b r c"
        by auto
      then have "holds_P b0 r c = holds_P ?b r c"
        by (simp add: holds_P_def)
      with c1 same False blast_member [OF assms(2) ob] show ?thesis
        by auto
    qed
  qed
  from run raw(2) cells show ?thesis
    by blast
qed

lemma explode_again:
  assumes sh: "shape (heap g a)" and ob: "on_board er ec"
    and first: "explode a er ec g = (Inr (), g1)"
    and same: "heap g2 = heap g1"
  shows "explode a er ec g2 = (Inr (), g2)"
proof -
  let ?b = "heap g a"
  from explode_props [OF sh ob] first obtain b1 where
    g1: "g1 = g\<lparr>heap := (heap g)(a := b1)\<rparr>" and sh1: "shape b1"
    and c1: "\<forall>r c. on_board r c \<longrightarrow>
              get_cell b1 r c =
                (if r = er \<and> c = ec then Inr ''00''
                 else if adjacent er ec r c \<and> \<not> holds_P ?b r c then Inr ''00''
                 else get_cell ?b r c)"
    by auto
  from g1 same have h2: "heap g2 a = b1"
    by simp
  with sh1 have sh2: "shape (heap g2 a)"
    by simp
  from explode_props [OF sh2 ob] h2 obtain b2 where
    run: "explode a er ec g2 = (Inr (), g2\<lparr>heap := (heap g2)(a := b2)\<rparr>)" and shb2: "shape b2"
    and c2: "\<forall>r c. on_board r c \<longrightarrow>
              get_cell b2 r c =
                (if r = er \<and> c = ec then Inr ''00''
                 else if adjacent er ec r c \<and> \<not> holds_P b1 r c then Inr ''00''
                 else get_cell b1 r c)"
    by auto
  have "b2 = b1"
  proof (rule board_ext [OF shb2 sh1])
    fix r c
    assume obrc: "on_board r c"
    from c1 obrc have e1: "get_cell b1 r c =
                (if r = er \<and> c = ec then Inr ''00''
                 else if adjacent er ec r c \<and> \<not> holds_P ?b r c then Inr ''00''
                 else get_cell ?b r c)"
      by blast
    from c2 obrc have e2: "get_cell b2 r c =
                (if r = er \<and> c = ec then Inr ''00''
                 else if adjacent er ec r c \<and> \<not> holds_P b1 r c then Inr ''00''
                 else get_cell b1 r c)"
      by blast
    show "get_cell b2 r c = get_cell b1 r c"
    proof (cases "r = er \<and> c = ec")
      case True
      with e1 e2 show ?thesis
        by simp
    next
      case False
      show ?thesis
      proof (cases "adjacent er ec r c \<and> \<not> holds_P ?b r c")
        case True
        with False e1 have "get_cell b1 r c = Inr ''00''"
          by auto
        with e2 show ?thesis
          by auto
      next
        case keep: False
        with False e1 have "get_cell b1 r c = get_cell ?b r c"
          by auto
        then have "holds_P b1 r c = holds_P ?b r c"
          by (simp add: holds_P_def)
        with keep False e2 show ?thesis
          by auto
      qed
    qed
  qed
  with h2 have "(heap g2)(a := b2) = heap g2"
    by (simp add: fun_upd_idem)
  then have "g2\<lparr>heap := (heap g2)(a := b2)\<rparr> = g2"
    by simp
  with run show ?thesis
    by simp
qed

lemma check_king_result:
  assumes "king_scan (heap g a) (False, False) = (black_present, white_present)"
  shows "check_king g a =
           (black_present \<or> white_present,
            if black_present = white_present then g
            else if black_present then g\<lparr>game_state := ''BLACK_WON''\<rparr>
            else g\<lparr>game_state := ''WHITE_WON''\<rparr>)"
  using assms by (auto simp: check_king_def)

lemma check_king_again:
  assumes "check_king g a = (v, g')"
  shows "check_king g' a = (v, g')"
proof -
  obtain bp wp where k: "king_scan (heap g a) (False, False) = (bp, wp)"
    by (cases "king_scan (heap g a) (False, False)")
  from check_king_result [OF k] assms have
    v: "v = (bp \<or> wp)" and g': "g' = (if bp = wp then g
            else if bp then g\<lparr>game_state := ''BLACK_WON''\<rparr>
            else g\<lparr>game_state := ''WHITE_WON''\<rparr>)"
    by simp_all
  from g' have "heap g' = heap g"
    by simp
  with k have "king_scan (heap g' a) (False, False) = (bp, wp)"
    by simp
  from check_king_result [OF this] v g' show ?thesis
    by auto
qed

lemma check_king_frame:
  assumes "check_king g a = (v, g')"
  shows "heap g' = heap g \<and> board g' = board g \<and> turn g' = turn g"
  using assms by (auto simp: check_king_def split: prod.splits if_splits)

lemma atomic_props:
  assumes sh: "shape (live g)" and ob: "on_board er ec"
  shows "\<exists>b1 bp wp.
           shape b1 \<and>
           (\<forall>r c. on_board r c \<longrightarrow>
              get_cell b1 r c =
                (if r = er \<and> c = ec then Inr ''00''
                 else if adjacent er ec r c \<and> \<not> holds_P (live g) r c then Inr ''00''
                 else get_cell (live g) r c)) \<and>
           king_scan b1 (False, False) = (bp, wp) \<and>
           atomic_trial g er ec =
             (Inr (bp \<or> wp), g\<lparr>game_state := verdict g bp wp, heap := (heap g)(board g := b1)\<rparr>) \<and>
           atomic_landing g er ec = atomic_trial g er ec"
proof -
  let ?a = "board g"
  from sh have sha: "shape (heap g ?a)"
    by (simp add: live_def)
  from explode_props [OF sha ob] obtain b1 where
    run: "explode ?a er ec g = (Inr (), g\<lparr>heap := (heap g)(?a := b1)\<rparr>)" and sh1: "shape b1"
    and cells: "\<forall>r c. on_board r c \<longrightarrow>
              get_cell b1 r c =
                (if r = er \<and> c = ec then Inr ''00''
                 else if adjacent er ec r c \<and> \<not> holds_P (heap g ?a) r c then Inr ''00''
                 else get_cell (heap g ?a) r c)"
    by blast
  let ?g1 = "g\<lparr>heap := (heap g)(?a := b1)\<rparr>"
  obtain bp wp where k: "king_scan b1 (False, False) = (bp, wp)"
    by (cases "king_scan b1 (False, False)")
  then have k1: "king_scan (heap ?g1 ?a) (False, False) = (bp, wp)"
    by simp
  let ?g2 = "g\<lparr>game_state := verdict g bp wp, heap := (heap g)(?a := b1)\<rparr>"
  have ck: "check_king ?g1 ?a = (bp \<or> wp, ?g2)"
    using check_king_result [OF k1] by (auto simp: verdict_def)
  have trial: "atomic_trial g er ec = (Inr (bp \<or> wp), ?g2)"
    using run ck by (simp add: atomic_trial_def)
  have landing: "atomic_landing g er ec = (Inr (bp \<or> wp), ?g2)"
  proof (cases "bp \<or> wp")
    case False
    with trial show ?thesis
      by (simp add: atomic_landing_def)
  next
    case True
    have same: "heap ?g2 = heap ?g1"
      by simp
    have again: "explode ?a er ec ?g2 = (Inr (), ?g2)"
      using sha ob run same by (rule explode_again)
    have ck2: "check_king ?g2 ?a = (bp \<or> wp, ?g2)"
      using ck by (rule check_king_again)
    have bd: "board ?g2 = ?a"
      by simp
    from True trial again ck2 bd show ?thesis
      by (simp add: atomic_landing_def)
  qed
  from sh1 cells k trial landing show ?thesis
    unfolding live_def by auto
qed

section \<open>What a call of make_move does to the board\<close>

lemma str_index_member: "str_index xs ch = Some i \<Longrightarrow> ch \<in> set xs"
  by (induction xs arbitrary: i) (auto split: if_splits)

lemma coords_letter:
  assumes "coords pos = Inr (r, c)"
  shows "\<exists>p0. py_get pos 0 = Inr p0 \<and> p0 \<in> set letters"
proof -
  from assms obtain p0 where p0: "py_get pos 0 = Inr p0"
    by (cases "py_get pos 0") (simp_all add: coords_def)
  with assms obtain row where "str_index letters p0 = Some row"
    by (cases "str_index letters p0") (simp_all add: coords_def)
  then have "p0 \<in> set letters"
    by (rule str_index_member)
  with p0 show ?thesis
    by blast
qed

lemma range_checks:
  "(\<not> (0 > r \<or> 0 > c) \<and> \<not> (7 < r \<or> 7 < c)) \<longleftrightarrow> on_board r c"
  by (auto simp: on_board_def)

lemma evaluate_simps:
  "evaluate (Inl e) g rest = (Inl e, g)"
  "evaluate (Inr x) g rest = rest x"
  by (simp_all add: evaluate_def)

lemma make_move_apply:
  assumes "game_state g = ''UNFINISHED''"
    and cs: "coords start_pos = Inr (sr, sc)" and ce: "coords end_pos = Inr (er, ec)"
    and "on_board sr sc" "on_board er ec"
    and "get_cell (live g) sr sc = Inr mp" "get_cell (live g) er ec = Inr ls"
  shows "make_move g start_pos end_pos = apply_move g mp sr sc ls er ec"
proof -
  from coords_letter [OF cs] obtain s0 where s0: "py_get start_pos 0 = Inr s0" "s0 \<in> set letters"
    by blast
  from coords_letter [OF ce] obtain e0 where e0: "py_get end_pos 0 = Inr e0" "e0 \<in> set letters"
    by blast
  from assms(4,5) have rng: "\<not> (0 > sr \<or> 0 > sc)" "\<not> (7 < sr \<or> 7 < sc)"
    "\<not> (0 > er \<or> 0 > ec)" "\<not> (7 < er \<or> 7 < ec)"
    by (simp_all add: on_board_def)
  show ?thesis
    unfolding make_move_def
    using assms(1) s0 e0 cs ce rng assms(6,7) by (simp add: evaluate_simps)
qed

lemma make_move_inversion:
  assumes "make_move g start_pos end_pos = (res, g')"
  shows "(g' = g \<and> res \<noteq> Inr True) \<or>
         (\<exists>sr sc er ec mp ls.
            game_state g = ''UNFINISHED'' \<and>
            coords start_pos = Inr (sr, sc) \<and> coords end_pos = Inr (er, ec) \<and>
            on_board sr sc \<and> on_board er ec \<and>
            get_cell (live g) sr sc = Inr mp \<and> get_cell (live g) er ec = Inr ls \<and>
            apply_move g mp sr sc ls er ec = (res, g'))"
proof -
  have early: ?thesis if "make_move g start_pos end_pos = (x, g)" "x \<noteq> Inr True" for x
    using that assms by auto
  show ?thesis
  proof (cases "game_state g = ''UNFINISHED''")
    case False
    then have "make_move g start_pos end_pos = (Inr False, g)"
      by (simp add: make_move_def)
    then show ?thesis
      by (rule early) simp
  next
    case unf: True
    show ?thesis
    proof (cases "py_get start_pos 0")
      case (Inl e)
      with unf have "make_move g start_pos end_pos = (Inl e, g)"
        unfolding make_move_def by (simp add: evaluate_simps)
      then show ?thesis
        by (rule early) simp
    next
      case s0: (Inr s0)
      show ?thesis
      proof (cases "s0 \<in> set letters")
        case False
        with unf s0 have "make_move g start_pos end_pos = (Inr False, g)"
          unfolding make_move_def by (simp add: evaluate_simps)
        then show ?thesis
          by (rule early) simp
      next
        case s0l: True
        show ?thesis
        proof (cases "py_get end_pos 0")
          case (Inl e)
          with unf s0 s0l have "make_move g start_pos end_pos = (Inl e, g)"
            unfolding make_move_def by (simp add: evaluate_simps)
          then show ?thesis
            by (rule early) simp
        next
          case e0: (Inr e0)
          show ?thesis
          proof (cases "e0 \<in> set letters")
            case False
            with unf s0 s0l e0 have "make_move g start_pos end_pos = (Inr False, g)"
              unfolding make_move_def by (simp add: evaluate_simps)
            then show ?thesis
              by (rule early) simp
          next
            case e0l: True
            show ?thesis
            proof (cases "coords start_pos")
              case (Inl e)
              with unf s0 s0l e0 e0l have "make_move g start_pos end_pos = (Inl e, g)"
                unfolding make_move_def by (simp add: evaluate_simps)
              then show ?thesis
                by (rule early) simp
            next
              case (Inr p)
              obtain sr sc where cs: "coords start_pos = Inr (sr, sc)"
                using Inr by (cases p) simp
              show ?thesis
              proof (cases "on_board sr sc")
                case False
                then have "(0 > sr \<or> 0 > sc) \<or> (7 < sr \<or> 7 < sc)"
                  by (auto simp: on_board_def)
                with unf s0 s0l e0 e0l cs have "make_move g start_pos end_pos = (Inr False, g)"
                  unfolding make_move_def by (auto simp: evaluate_simps)
                then show ?thesis
                  by (rule early) simp
              next
                case ok1: True
                then have r1: "\<not> (0 > sr \<or> 0 > sc)" "\<not> (7 < sr \<or> 7 < sc)"
                  by (simp_all add: on_board_def)
                show ?thesis
                proof (cases "get_cell (live g) sr sc")
                  case (Inl e)
                  with unf s0 s0l e0 e0l cs r1 have "make_move g start_pos end_pos = (Inl e, g)"
                    unfolding make_move_def by (simp add: evaluate_simps)
                  then show ?thesis
                    by (rule early) simp
                next
                  case mp: (Inr mp)
                  show ?thesis
                  proof (cases "coords end_pos")
                    case (Inl e)
                    with unf s0 s0l e0 e0l cs r1 mp
                    have "make_move g start_pos end_pos = (Inl e, g)"
                      unfolding make_move_def by (simp add: evaluate_simps)
                    then show ?thesis
                      by (rule early) simp
                  next
                    case (Inr q)
                    obtain er ec where ce: "coords end_pos = Inr (er, ec)"
                      using Inr by (cases q) simp
                    show ?thesis
                    proof (cases "on_board er ec")
                      case False
                      then have "(0 > er \<or> 0 > ec) \<or> (7 < er \<or> 7 < ec)"
                        by (auto simp: on_board_def)
                      with unf s0 s0l e0 e0l cs r1 mp ce
                      have "make_move g start_pos end_pos = (Inr False, g)"
                        unfolding make_move_def by (auto simp: evaluate_simps)
                      then show ?thesis
                        by (rule early) simp
                    next
                      case ok2: True
                      then have r2: "\<not> (0 > er \<or> 0 > ec)" "\<not> (7 < er \<or> 7 < ec)"
                        by (simp_all add: on_board_def)
                      show ?thesis
                      proof (cases "get_cell (live g) er ec")
                        case (Inl e)
                        with unf s0 s0l e0 e0l cs r1 mp ce r2
                        have "make_move g start_pos end_pos = (Inl e, g)"
                          unfolding make_move_def by (simp add: evaluate_simps)
                        then show ?thesis
                          by (rule early) simp
                      next
                        case ls: (Inr ls)
                        from make_move_apply [OF unf cs ce ok1 ok2 mp ls] assms
                        have "apply_move g mp sr sc ls er ec = (res, g')"
                          by simp
                        with unf cs ce ok1 ok2 mp ls show ?thesis
                          by blast
                      qed
                    qed
                  qed
                qed
              qed
            qed
          qed
        qed
      qed
    qed
  qed
qed

lemma flip_turn_frame:
  "heap (flip_turn g) = heap g" "board (flip_turn g) = board g"
  "game_state (flip_turn g) = game_state g" "live (flip_turn g) = live g"
  by (simp_all add: flip_turn_def live_def)

lemma finish_move_props:
  assumes "shape (live g)" "on_board sr sc"
  shows "\<exists>b'. finish_move g sr sc = (Inr True, flip_turn (g\<lparr>heap := (heap g)(board g := b')\<rparr>)) \<and>
           shape b' \<and>
           (\<forall>r c. on_board r c \<longrightarrow>
              get_cell b' r c = (if r = sr \<and> c = sc then Inr ''00'' else get_cell (live g) r c))"
proof -
  from assms(1) have sh: "shape (heap g (board g))"
    by (simp add: live_def)
  from write_cell_props [OF sh assms(2), of "''00''"] obtain b' where
    w: "write_cell (board g) sr sc ''00'' g = (Inr (), g\<lparr>heap := (heap g)(board g := b')\<rparr>)"
    and sh': "shape b'"
    and cells: "\<forall>r c. on_board r c \<longrightarrow>
              get_cell b' r c = (if r = sr \<and> c = sc then Inr ''00'' else get_cell (heap g (board g)) r c)"
    by blast
  from w have "finish_move g sr sc = (Inr True, flip_turn (g\<lparr>heap := (heap g)(board g := b')\<rparr>))"
    by (simp add: finish_move_def)
  with sh' cells show ?thesis
    unfolding live_def by blast
qed

lemma apply_move_cases:
  assumes sh: "shape (live g)" and ob1: "on_board sr sc" and ob2: "on_board er ec"
    and run: "apply_move g mp sr sc ls er ec = (res, g')"
  shows "board g' = board g \<and> shape (live g') \<and>
   ((res \<noteq> Inr True \<and> g' = g) \<or>
    (ls \<noteq> ''00'' \<and>
     (\<exists>committed. res = Inr committed \<and>
        (\<forall>r c. on_board r c \<longrightarrow>
           get_cell (live g') r c =
             (if (committed \<and> r = sr \<and> c = sc) \<or> (r = er \<and> c = ec) then Inr ''00''
              else if adjacent er ec r c \<and> \<not> holds_P (live g) r c then Inr ''00''
              else get_cell (live g) r c)))) \<or>
    (ls = ''00'' \<and> res = Inr True \<and>
     (\<forall>r c. on_board r c \<longrightarrow>
        get_cell (live g') r c =
          (if r = sr \<and> c = sc then Inr ''00''
           else if r = er \<and> c = ec then Inr mp
           else get_cell (live g) r c))))"
proof (cases "validate_move g mp sr sc ls er ec")
  case (Inl e)
  with run have "res = Inl e" "g' = g"
    by (simp_all add: apply_move_def)
  with sh show ?thesis
    by simp
next
  case (Inr validity)
  show ?thesis
  proof (cases "truthy validity")
    case False
    with run Inr have "res = Inr False" "g' = g"
      by (simp_all add: apply_move_def)
    with sh show ?thesis
      by simp
  next
    case legal: True
    show ?thesis
    proof (cases "ls = ''00''")
      case capture: False
      from atomic_props [OF sh ob2] obtain b1 bp wp where
        sh1: "shape b1"
        and c1: "\<forall>r c. on_board r c \<longrightarrow>
              get_cell b1 r c =
                (if r = er \<and> c = ec then Inr ''00''
                 else if adjacent er ec r c \<and> \<not> holds_P (live g) r c then Inr ''00''
                 else get_cell (live g) r c)"
        and trial: "atomic_trial g er ec =
             (Inr (bp \<or> wp), g\<lparr>game_state := verdict g bp wp, heap := (heap g)(board g := b1)\<rparr>)"
        and landing: "atomic_landing g er ec = atomic_trial g er ec"
        by blast
      let ?g2 = "g\<lparr>game_state := verdict g bp wp, heap := (heap g)(board g := b1)\<rparr>"
      have live2: "live ?g2 = b1"
        by (simp add: live_def)
      show ?thesis
      proof (cases "bp \<or> wp")
        case False
        with run Inr legal capture trial landing have r: "res = Inr False" "g' = ?g2"
          by (simp_all add: apply_move_def)
        from r(2) live2 have l: "live g' = b1" "board g' = board g"
          by simp_all
        have "\<forall>r c. on_board r c \<longrightarrow>
           get_cell (live g') r c =
             (if (False \<and> r = sr \<and> c = sc) \<or> (r = er \<and> c = ec) then Inr ''00''
              else if adjacent er ec r c \<and> \<not> holds_P (live g) r c then Inr ''00''
              else get_cell (live g) r c)"
          using c1 l(1) by simp
        with r(1) capture l sh1 show ?thesis
          by blast
      next
        case True
        with run Inr legal capture trial landing
        have fin: "finish_move ?g2 sr sc = (res, g')"
          by (simp add: apply_move_def)
        from sh1 live2 have sh2: "shape (live ?g2)"
          by simp
        from finish_move_props [OF sh2 ob1] fin obtain b3 where
          r: "res = Inr True" "g' = flip_turn (?g2\<lparr>heap := (heap ?g2)(board ?g2 := b3)\<rparr>)"
          and sh3: "shape b3"
          and c3: "\<forall>r c. on_board r c \<longrightarrow>
              get_cell b3 r c = (if r = sr \<and> c = sc then Inr ''00'' else get_cell (live ?g2) r c)"
          by auto
        from r(2) have l: "live g' = b3" "board g' = board g"
          by (simp_all add: flip_turn_frame live_def)
        have "get_cell (live g') r c =
             (if (True \<and> r = sr \<and> c = sc) \<or> (r = er \<and> c = ec) then Inr ''00''
              else if adjacent er ec r c \<and> \<not> holds_P (live g) r c then Inr ''00''
              else get_cell (live g) r c)" if ob: "on_board r c" for r c
        proof -
          from c3 ob live2 have "get_cell b3 r c = (if r = sr \<and> c = sc then Inr ''00'' else get_cell b1 r c)"
            by simp
          moreover from c1 ob have "get_cell b1 r c =
                (if r = er \<and> c = ec then Inr ''00''
                 else if adjacent er ec r c \<and> \<not> holds_P (live g) r c then Inr ''00''
                 else get_cell (live g) r c)"
            by blast
          ultimately show ?thesis
            using l(1) by auto
        qed
        with r(1) capture l sh3 show ?thesis
          by blast
      qed
    next
      case plain: True
      from sh have sha: "shape (heap g (board g))"
        by (simp add: live_def)
      from write_cell_props [OF sha ob2, of mp] obtain b1 where
        w: "write_cell (board g) er ec mp g = (Inr (), g\<lparr>heap := (heap g)(board g := b1)\<rparr>)"
        and sh1: "shape b1"
        and c1: "\<forall>r c. on_board r c \<longrightarrow>
              get_cell b1 r c = (if r = er \<and> c = ec then Inr mp else get_cell (heap g (board g)) r c)"
        by blast
      let ?g1 = "g\<lparr>heap := (heap g)(board g := b1)\<rparr>"
      have live1: "live ?g1 = b1"
        by (simp add: live_def)
      from run Inr legal plain w have fin: "finish_move ?g1 sr sc = (res, g')"
        by (simp add: apply_move_def)
      from sh1 live1 have sh1': "shape (live ?g1)"
        by simp
      from finish_move_props [OF sh1' ob1] fin obtain b3 where
        r: "res = Inr True" "g' = flip_turn (?g1\<lparr>heap := (heap ?g1)(board ?g1 := b3)\<rparr>)"
        and sh3: "shape b3"
        and c3: "\<forall>r c. on_board r c \<longrightarrow>
            get_cell b3 r c = (if r = sr \<and> c = sc then Inr ''00'' else get_cell (live ?g1) r c)"
        by auto
      from r(2) have l: "live g' = b3" "board g' = board g"
        by (simp_all add: flip_turn_frame live_def)
      have "get_cell (live g') r c =
          (if r = sr \<and> c = sc then Inr ''00''
           else if r = er \<and> c = ec then Inr mp
           else get_cell (live g) r c)" if ob: "on_board r c" for r c
      proof -
        from c3 ob live1 have "get_cell b3 r c = (if r = sr \<and> c = sc then Inr ''00'' else get_cell b1 r c)"
          by simp
        moreover from c1 ob have "get_cell b1 r c = (if r = er \<and> c = ec then Inr mp else get_cell (live g) r c)"
          unfolding live_def by blast
        ultimately show ?thesis
          using l(1) by auto
      qed
      with r(1) plain l sh3 show ?thesis
        by blast
    qed
  qed
qed

lemma cells_ok_iff:
  "cells_ok b \<longleftrightarrow>
     shape b \<and> (\<forall>r c. on_board r c \<longrightarrow> (\<exists>v. get_cell b r c = Inr v \<and> v \<in> set (''00'' # piece_codes)))"
proof
  assume ok: "cells_ok b"
  then have sh: "shape b"
    by (simp add: cells_ok_def)
  have "\<exists>v. get_cell b r c = Inr v \<and> v \<in> set (''00'' # piece_codes)" if ob: "on_board r c" for r c
  proof -
    from ob have n: "nat r < 8" "nat c < 8"
      by (simp_all add: on_board_nat)
    with sh have "nat r < length b" "nat c < length (b ! nat r)"
      by (simp_all add: shape_length shape_row)
    with ok have "b ! nat r ! nat c \<in> set (''00'' # piece_codes)"
      by (simp add: cells_ok_def list_all_length)
    with get_cell_shape [OF sh ob] show ?thesis
      by simp
  qed
  with sh show "shape b \<and> (\<forall>r c. on_board r c \<longrightarrow> (\<exists>v. get_cell b r c = Inr v \<and> v \<in> set (''00'' # piece_codes)))"
    by blast
next
  assume h: "shape b \<and> (\<forall>r c. on_board r c \<longrightarrow> (\<exists>v. get_cell b r c = Inr v \<and> v \<in> set (''00'' # piece_codes)))"
  then have sh: "shape b"
    by simp
  have "b ! i ! j \<in> set (''00'' # piece_codes)" if "i < length b" "j < length (b ! i)" for i j
  proof -
    from that sh have "i < 8" "j < 8"
      by (simp_all add: shape_length shape_row)
    then have ob: "on_board (int i) (int j)"
      by (simp add: on_board_def)
    with h obtain v where "get_cell b (int i) (int j) = Inr v" "v \<in> set (''00'' # piece_codes)"
      by blast
    with get_cell_shape [OF sh ob] show ?thesis
      by simp
  qed
  with sh show "cells_ok b"
    by (simp add: cells_ok_def list_all_length)
qed

lemma make_move_cells:
  assumes sh: "shape (live g)"
  shows "shape (live (snd (make_move g start_pos end_pos))) \<and>
         (\<forall>r c. on_board r c \<longrightarrow>
            get_cell (live (snd (make_move g start_pos end_pos))) r c = Inr ''00'' \<or>
            (\<exists>r0 c0. on_board r0 c0 \<and>
               get_cell (live (snd (make_move g start_pos end_pos))) r c = get_cell (live g) r0 c0))"
proof -
  obtain res g' where run: "make_move g start_pos end_pos = (res, g')"
    by (cases "make_move g start_pos end_pos")
  have "shape (live g') \<and>
         (\<forall>r c. on_board r c \<longrightarrow>
            get_cell (live g') r c = Inr ''00'' \<or>
            (\<exists>r0 c0. on_board r0 c0 \<and> get_cell (live g') r c = get_cell (live g) r0 c0))"
    using make_move_inversion [OF run]
  proof
    assume "g' = g \<and> res \<noteq> Inr True"
    with sh show ?thesis
      by blast
  next
    assume "\<exists>sr sc er ec mp ls.
            game_state g = ''UNFINISHED'' \<and>
            coords start_pos = Inr (sr, sc) \<and> coords end_pos = Inr (er, ec) \<and>
            on_board sr sc \<and> on_board er ec \<and>
            get_cell (live g) sr sc = Inr mp \<and> get_cell (live g) er ec = Inr ls \<and>
            apply_move g mp sr sc ls er ec = (res, g')"
    then obtain sr sc er ec mp ls where
      ob1: "on_board sr sc" and ob2: "on_board er ec"
      and mp: "get_cell (live g) sr sc = Inr mp"
      and am: "apply_move g mp sr sc ls er ec = (res, g')"
      by blast
    from apply_move_cases [OF sh ob1 ob2 am] have sh': "shape (live g')"
      and cases: "(res \<noteq> Inr True \<and> g' = g) \<or>
    (ls \<noteq> ''00'' \<and>
     (\<exists>committed. res = Inr committed \<and>
        (\<forall>r c. on_board r c \<longrightarrow>
           get_cell (live g') r c =
             (if (committed \<and> r = sr \<and> c = sc) \<or> (r = er \<and> c = ec) then Inr ''00''
              else if adjacent er ec r c \<and> \<not> holds_P (live g) r c then Inr ''00''
              else get_cell (live g) r c)))) \<or>
    (ls = ''00'' \<and> res = Inr True \<and>
     (\<forall>r c. on_board r c \<longrightarrow>
        get_cell (live g') r c =
          (if r = sr \<and> c = sc then Inr ''00''
           else if r = er \<and> c = ec then Inr mp
           else get_cell (live g) r c)))"
      by simp_all
    have "get_cell (live g') r c = Inr ''00'' \<or>
            (\<exists>r0 c0. on_board r0 c0 \<and> get_cell (live g') r c = get_cell (live g) r0 c0)"
      if ob: "on_board r c" for r c
      using cases
    proof (elim disjE conjE exE)
      assume "g' = g"
      with ob show ?thesis
        by blast
    next
      fix committed
      assume "\<forall>r c. on_board r c \<longrightarrow>
           get_cell (live g') r c =
             (if (committed \<and> r = sr \<and> c = sc) \<or> (r = er \<and> c = ec) then Inr ''00''
              else if adjacent er ec r c \<and> \<not> holds_P (live g) r c then Inr ''00''
              else get_cell (live g) r c)"
      with ob have "get_cell (live g') r c =
             (if (committed \<and> r = sr \<and> c = sc) \<or> (r = er \<and> c = ec) then Inr ''00''
              else if adjacent er ec r c \<and> \<not> holds_P (live g) r c then Inr ''00''
              else get_cell (live g) r c)"
        by blast
      then have "get_cell (live g') r c = Inr ''00'' \<or> get_cell (live g') r c = get_cell (live g) r c"
        by (simp split: if_splits)
      with ob show ?thesis
        by blast
    next
      assume "\<forall>r c. on_board r c \<longrightarrow>
        get_cell (live g') r c =
          (if r = sr \<and> c = sc then Inr ''00''
           else if r = er \<and> c = ec then Inr mp
           else get_cell (live g) r c)"
      with ob have "get_cell (live g') r c =
          (if r = sr \<and> c = sc then Inr ''00''
           else if r = er \<and> c = ec then Inr mp
           else get_cell (live g) r c)"
        by blast
      then have "get_cell (live g') r c = Inr ''00'' \<or> get_cell (live g') r c = get_cell (live g) sr sc
          \<or> get_cell (live g') r c = get_cell (live g) r c"
        using mp by (simp split: if_splits)
      with ob ob1 show ?thesis
        by blast
    qed
    with sh' show ?thesis
      by blast
  qed
  with run show ?thesis
    by simp
qed

lemma make_move_cells_ok:
  assumes "cells_ok (live g)"
  shows "cells_ok (live (snd (make_move g start_pos end_pos)))"
proof -
  let ?b' = "live (snd (make_move g start_pos end_pos))"
  from assms have sh: "shape (live g)"
    and old: "\<And>r c. on_board r c \<Longrightarrow> \<exists>v. get_cell (live g) r c = Inr v \<and> v \<in> set (''00'' # piece_codes)"
    unfolding cells_ok_iff by blast+
  from make_move_cells [OF sh, of start_pos end_pos] have sh': "shape ?b'"
    and new: "\<And>r c. on_board r c \<Longrightarrow> get_cell ?b' r c = Inr ''00'' \<or>
            (\<exists>r0 c0. on_board r0 c0 \<and> get_cell ?b' r c = get_cell (live g) r0 c0)"
    by blast+
  have "\<exists>v. get_cell ?b' r c = Inr v \<and> v \<in> set (''00'' # piece_codes)" if ob: "on_board r c" for r c
    using new [OF ob]
  proof
    assume "get_cell ?b' r c = Inr ''00''"
    then show ?thesis
      by simp
  next
    assume "\<exists>r0 c0. on_board r0 c0 \<and> get_cell ?b' r c = get_cell (live g) r0 c0"
    then obtain r0 c0 where "on_board r0 c0" "get_cell ?b' r c = get_cell (live g) r0 c0"
      by blast
    with old [of r0 c0] show ?thesis
      by simp
  qed
  with sh' show ?thesis
    unfolding cells_ok_iff by blast
qed

lemma play_cells_ok: "cells_ok (live g) \<Longrightarrow> cells_ok (live (play g moves))"
proof (induction moves arbitrary: g)
  case Nil
  then show ?case by simp
next
  case (Cons m moves)
  obtain s e where m: "m = (s, e)"
    by (cases m)
  from Cons.prems have "cells_ok (live (snd (make_move g s e)))"
    by (rule make_move_cells_ok)
  then have "cells_ok (live (play (snd (make_move g s e)) moves))"
    by (rule Cons.IH)
  with m show ?case
    by simp
qed

lemma init_cells_ok: "cells_ok (live init)"
  by code_simp

lemma str_index_bounds: "str_index xs ch = Some i \<Longrightarrow> 0 \<le> i \<and> i < int (length xs)"
  by (induction xs arbitrary: i) (auto split: if_splits)


lemma coords_row:
  assumes "coords pos = Inr (r, c)"
  shows "0 \<le> r \<and> r \<le> 7"
proof -
  from assms obtain p0 where p0: "py_get pos 0 = Inr p0"
    by (cases "py_get pos 0") (simp_all add: coords_def)
  with assms obtain row where row: "str_index letters p0 = Some row"
    by (cases "str_index letters p0") (simp_all add: coords_def)
  with assms p0 have "row = r"
    by (auto simp: coords_def split: sum.splits option.splits)
  with str_index_bounds [OF row] show ?thesis
    by (simp add: letters_def)
qed







section \<open>Blocked paths\<close>

text \<open>
  The loops that the validators do run reject a path with an occupied square: the
  straight-line loops when the piece travels towards the larger index, the diagonal
  loops in each of the four directions.
\<close>

lemma scan_blocked:
  assumes "shape b" and "\<forall>(r, c) \<in> set sqs. on_board r c"
    and "(r, c) \<in> set sqs" and "get_cell b r c \<noteq> Inr ''00''"
  shows "scan b sqs = Inr False"
  using assms(2,3)
proof (induction sqs)
  case Nil
  then show ?case by simp
next
  case (Cons sq sqs)
  obtain r0 c0 where sq: "sq = (r0, c0)"
    by (cases sq)
  with Cons.prems(1) have ob: "on_board r0 c0"
    by simp
  from get_cell_shape [OF assms(1) ob] obtain v where v: "get_cell b r0 c0 = Inr v"
    by blast
  show ?case
  proof (cases "v = ''00''")
    case False
    with sq v show ?thesis
      by simp
  next
    case True
    with v assms(4) have "(r, c) \<noteq> (r0, c0)"
      by auto
    with Cons.prems(2) sq have "(r, c) \<in> set sqs"
      by auto
    moreover from Cons.prems(1) have "\<forall>(r, c) \<in> set sqs. on_board r c"
      by simp
    ultimately have "scan b sqs = Inr False"
      by (rule Cons.IH [rotated])
    with sq v True show ?thesis
      by simp
  qed
qed

lemma straight_blocked_forward:
  assumes sh: "shape (live g)" and ob: "on_board sr sc" "on_board er ec"
  shows "sr = er \<Longrightarrow> sc < i \<Longrightarrow> i < ec \<Longrightarrow> get_cell (live g) sr i \<noteq> Inr ''00'' \<Longrightarrow>
           validate_rook g sr sc er ec = Inr (Some False)"
    and "sr \<noteq> er \<Longrightarrow> sc = ec \<Longrightarrow> sr < i \<Longrightarrow> i < er \<Longrightarrow> get_cell (live g) i sc \<noteq> Inr ''00'' \<Longrightarrow>
           validate_rook g sr sc er ec = Inr (Some False)"
proof -
  assume h: "sr = er" "sc < i" "i < ec" "get_cell (live g) sr i \<noteq> Inr ''00''"
  let ?sqs = "map (\<lambda>i. (sr, i)) [sc + 1 .. ec - 1]"
  from ob have "\<forall>(r, c) \<in> set ?sqs. on_board r c"
    by (auto simp: on_board_def)
  moreover from h have "(sr, i) \<in> set ?sqs"
    by auto
  ultimately have "scan (live g) ?sqs = Inr False"
    using sh h(4) by (intro scan_blocked [where r = sr and c = i]) auto
  with h(1) show "validate_rook g sr sc er ec = Inr (Some False)"
    by (simp add: validate_rook_def or_else_def)
next
  assume h: "sr \<noteq> er" "sc = ec" "sr < i" "i < er" "get_cell (live g) i sc \<noteq> Inr ''00''"
  let ?sqs = "map (\<lambda>i. (i, sc)) [sr + 1 .. er - 1]"
  from ob have "\<forall>(r, c) \<in> set ?sqs. on_board r c"
    by (auto simp: on_board_def)
  moreover from h have "(i, sc) \<in> set ?sqs"
    by auto
  ultimately have "scan (live g) ?sqs = Inr False"
    using sh h(5) by (intro scan_blocked [where r = i and c = sc]) auto
  with h(1,2) show "validate_rook g sr sc er ec = Inr (Some False)"
    by (simp add: validate_rook_def or_else_def)
qed


lemma diagonal_blocked:
  assumes sh: "shape (live g)" and ob: "on_board sr sc" "on_board er ec"
    and diag: "abs (sr - er) = abs (sc - ec)"
    and i: "0 < i" "i < abs (sr - er)"
    and occ: "get_cell (live g) (sr + i * sgn (er - sr)) (sc + i * sgn (ec - sc)) \<noteq> Inr ''00''"
  shows "diagonal g sr sc er ec = Inr (Some False)"
proof -
  let ?d = "abs (sr - er)"
  from i diag consider
      (pp) "er > sr" "ec > sc" | (pm) "er > sr" "ec < sc"
    | (mp) "er < sr" "ec > sc" | (mm) "er < sr" "ec < sc"
    by linarith
  then show ?thesis
  proof cases
    case pp
    let ?sqs = "map (\<lambda>i. (sr + i, sc + i)) [1 .. ?d - 1]"
    from pp diag ob have "\<forall>(r, c) \<in> set ?sqs. on_board r c"
      by (auto simp: on_board_def)
    moreover from pp i have "(sr + i, sc + i) \<in> set ?sqs"
      by auto
    moreover from pp occ have "get_cell (live g) (sr + i) (sc + i) \<noteq> Inr ''00''"
      by simp
    ultimately have "scan (live g) ?sqs = Inr False"
      using sh by (intro scan_blocked [where r = "sr + i" and c = "sc + i"]) auto
    with pp show ?thesis
      by (simp add: diagonal_def or_else_def)
  next
    case pm
    let ?sqs = "map (\<lambda>i. (sr + i, sc - i)) [1 .. ?d - 1]"
    from pm diag ob have "\<forall>(r, c) \<in> set ?sqs. on_board r c"
      by (auto simp: on_board_def)
    moreover from pm i have "(sr + i, sc - i) \<in> set ?sqs"
      by auto
    moreover from pm occ have "get_cell (live g) (sr + i) (sc - i) \<noteq> Inr ''00''"
      by simp
    ultimately have "scan (live g) ?sqs = Inr False"
      using sh by (intro scan_blocked [where r = "sr + i" and c = "sc - i"]) auto
    with pm show ?thesis
      by (simp add: diagonal_def or_else_def)
  next
    case mp
    let ?sqs = "map (\<lambda>i. (sr - i, sc + i)) [1 .. ?d - 1]"
    from mp diag ob have "\<forall>(r, c) \<in> set ?sqs. on_board r c"
      by (auto simp: on_board_def)
    moreover from mp i have "(sr - i, sc + i) \<in> set ?sqs"
      by auto
    moreover from mp occ have "get_cell (live g) (sr - i) (sc + i) \<noteq> Inr ''00''"
      by simp
    ultimately have "scan (live g) ?sqs = Inr False"
      using sh by (intro scan_blocked [where r = "sr - i" and c = "sc + i"]) auto
    with mp show ?thesis
      by (simp add: diagonal_def or_else_def)
  next
    case mm
    let ?sqs = "map (\<lambda>i. (sr - i, sc - i)) [1 .. ?d - 1]"
    from mm diag ob have "\<forall>(r, c) \<in> set ?sqs. on_board r c"
      by (auto simp: on_board_def)
    moreover from mm i have "(sr - i, sc - i) \<in> set ?sqs"
      by auto
    moreover from mm occ have "get_cell (live g) (sr - i) (sc - i) \<noteq> Inr ''00''"
      by simp
    ultimately have "scan (live g) ?sqs = Inr False"
      using sh by (intro scan_blocked [where r = "sr - i" and c = "sc - i"]) auto
    with mm show ?thesis
      by (simp add: diagonal_def or_else_def)
  qed
qed

section \<open>Terminal states\<close>

text \<open>
  Claim C7. Once the game state holds a Won value, every later \<open>make_move\<close> call,
  whatever its arguments, returns False and leaves the turn, the game state and the
  board as they are; so the game state never goes back to UNFINISHED nor from one Won
  value to the other, however many calls follow.
\<close>

theorem terminal_state_fail_closed:
  assumes "game_state g = ''WHITE_WON'' \<or> game_state g = ''BLACK_WON''"
  shows "make_move g start_pos end_pos = (Inr False, g) \<and> play g moves = g"
proof -
  from assms have fin: "game_state g \<noteq> ''UNFINISHED''"
    by auto
  have one: "make_move g s e = (Inr False, g)" for s e
    using fin by (simp add: make_move_def)
  have "play g ms = g" for ms
  proof (induction ms)
    case Nil
    show ?case by simp
  next
    case (Cons m ms)
    obtain s e where "m = (s, e)"
      by (cases m)
    with Cons one show ?case by simp
  qed
  with one show ?thesis
    by simp
qed

theorem terminal_state_fail_closed_witness:
  "game_state position_won = ''WHITE_WON'' \<and>
   make_move position_won ''a5'' ''a4'' = (Inr False, position_won) \<and>
   play position_won [(''a5'', ''a4''), (''a2'', ''a3'')] = position_won"
proof -
  have won: "game_state position_won = ''WHITE_WON''"
    by code_simp
  then have "game_state position_won = ''WHITE_WON'' \<or> game_state position_won = ''BLACK_WON''"
    by simp
  from terminal_state_fail_closed [OF this] won show ?thesis
    by simp
qed

section \<open>The pawn and the king\<close>

text \<open>
  Claim C8. A white pawn on its home column (digit 2, column index 1) on White's turn,
  and a black pawn on digit 7 (column index 6) on Black's turn, moving along its own row
  by one or two columns forward onto an empty square, is judged legal. The verdict
  holds for every board: the square passed over is never read.
\<close>

theorem pawn_opening_ignores_passed_square:
  "(turn g = ''WHITE'' \<and> (end_col = 2 \<or> end_col = 3) \<longrightarrow>
      validate_move g ''WP'' row 1 ''00'' row end_col = Inr (Some True)) \<and>
   (turn g = ''BLACK'' \<and> (end_col = 5 \<or> end_col = 4) \<longrightarrow>
      validate_move g ''BP'' row 6 ''00'' row end_col = Inr (Some True))"
  by (auto simp: validate_move_def validate_pawn_def)

theorem pawn_opening_ignores_passed_square_witness:
  "turn position_jump = ''WHITE'' \<and>
   get_cell (live position_jump) 0 1 = Inr ''WP'' \<and>
   get_cell (live position_jump) 0 2 = Inr ''WN'' \<and>
   get_cell (live position_jump) 0 3 = Inr ''00'' \<and>
   validate_move position_jump ''WP'' 0 1 ''00'' 0 3 = Inr (Some True) \<and>
   fst (make_move position_jump ''a2'' ''a4'') = Inr True \<and>
   turn position_jump_black = ''BLACK'' \<and>
   get_cell (live position_jump_black) 0 6 = Inr ''BP'' \<and>
   get_cell (live position_jump_black) 0 5 = Inr ''BN'' \<and>
   get_cell (live position_jump_black) 0 4 = Inr ''00'' \<and>
   validate_move position_jump_black ''BP'' 0 6 ''00'' 0 4 = Inr (Some True) \<and>
   fst (make_move position_jump_black ''a7'' ''a5'') = Inr True"
proof -
  have white: "turn position_jump = ''WHITE''"
    "get_cell (live position_jump) 0 1 = Inr ''WP''"
    "get_cell (live position_jump) 0 2 = Inr ''WN''"
    "get_cell (live position_jump) 0 3 = Inr ''00''"
    "fst (make_move position_jump ''a2'' ''a4'') = Inr True"
    by code_simp+
  have black: "turn position_jump_black = ''BLACK''"
    "get_cell (live position_jump_black) 0 6 = Inr ''BP''"
    "get_cell (live position_jump_black) 0 5 = Inr ''BN''"
    "get_cell (live position_jump_black) 0 4 = Inr ''00''"
    "fst (make_move position_jump_black ''a7'' ''a5'') = Inr True"
    by code_simp+
  have w: "validate_move position_jump ''WP'' 0 1 ''00'' 0 3 = Inr (Some True)"
    using pawn_opening_ignores_passed_square [of position_jump 3 0] white(1) by simp
  have b: "validate_move position_jump_black ''BP'' 0 6 ''00'' 0 4 = Inr (Some True)"
    using pawn_opening_ignores_passed_square [of position_jump_black 4 0] black(1) by simp
  from white black w b show ?thesis
    by simp
qed

lemma validate_move_king:
  assumes "moving_piece = ''WK'' \<or> moving_piece = ''BK''"
    and "validate_move g moving_piece start_row start_col landing_space end_row end_col = Inr (Some True)"
  shows "validate_king start_row start_col landing_space end_row end_col = Some True"
proof -
  from assms(1) show ?thesis
  proof
    assume "moving_piece = ''WK''"
    with assms(2) show ?thesis
      by (simp add: validate_move_def split: if_splits)
  next
    assume "moving_piece = ''BK''"
    with assms(2) show ?thesis
      by (simp add: validate_move_def split: if_splits)
  qed
qed

lemma validate_king_empty:
  "validate_king start_row start_col landing_space end_row end_col = Some True \<Longrightarrow>
   landing_space = ''00''"
  by (simp add: validate_king_def split: if_splits)

text \<open>
  Claim C6. The king's predicate judges a move legal exactly when the row and the column
  each change by at most one, the move is not the null move, and the landing square is
  empty. So whenever the move validator approves the move of a king, the landing square
  is empty: a king never starts a capture.
\<close>

theorem king_legality:
  "(truthy (validate_king start_row start_col landing_space end_row end_col) \<longleftrightarrow>
      abs (start_row - end_row) \<le> 1 \<and> abs (start_col - end_col) \<le> 1 \<and>
      \<not> (start_row = end_row \<and> start_col = end_col) \<and> landing_space = ''00'') \<and>
   ((moving_piece = ''WK'' \<or> moving_piece = ''BK'') \<and>
    validate_move g moving_piece start_row start_col landing_space end_row end_col = Inr v \<and>
    truthy v \<longrightarrow> landing_space = ''00'')"
proof (intro conjI impI)
  show "truthy (validate_king start_row start_col landing_space end_row end_col) \<longleftrightarrow>
      abs (start_row - end_row) \<le> 1 \<and> abs (start_col - end_col) \<le> 1 \<and>
      \<not> (start_row = end_row \<and> start_col = end_col) \<and> landing_space = ''00''"
    by (auto simp: validate_king_def truthy_def)
next
  assume h: "(moving_piece = ''WK'' \<or> moving_piece = ''BK'') \<and>
    validate_move g moving_piece start_row start_col landing_space end_row end_col = Inr v \<and>
    truthy v"
  then have "v = Some True"
    by (simp add: truthy_def)
  with h have "validate_king start_row start_col landing_space end_row end_col = Some True"
    using validate_move_king by blast
  then show "landing_space = ''00''"
    by (rule validate_king_empty)
qed

theorem king_legality_witness:
  "validate_move position_kings ''WK'' 3 3 ''00'' 3 2 = Inr (Some True) \<and>
   truthy (Some True) \<and>
   truthy (validate_king 3 3 ''00'' 3 2) \<and>
   \<not> truthy (validate_king 3 3 ''BP'' 3 4)"
proof -
  have c: "validate_move position_kings ''WK'' 3 3 ''00'' 3 2 = Inr (Some True)"
    by code_simp
  have d: "truthy (Some True)"
    by (simp add: truthy_def)
  have a: "truthy (validate_king 3 3 ''00'' 3 2)"
    using king_legality [where start_row = 3 and start_col = 3 and landing_space = "''00''"
        and end_row = 3 and end_col = 2 and moving_piece = "''WK''" and g = position_kings
        and v = "Some True"] c d
    by simp
  have b: "\<not> truthy (validate_king 3 3 ''BP'' 3 4)"
    using king_legality [where start_row = 3 and start_col = 3 and landing_space = "''BP''"
        and end_row = 3 and end_col = 4]
    by simp
  from a b c d show ?thesis
    by simp
qed

section \<open>The capture that would destroy both kings\<close>

text \<open>
  Claim C1. A capture whose explosion would leave no king on the board is to be rejected
  with the live board as it was before the call. In the position reached by
  e2-e4 d7-d5 Ke1-e2 Ke8-d7 Ke2-d3 Kd7-d6 Kd3-d4 a7-a6 the white pawn e4 captures on d5,
  between the two kings. \<open>make_move\<close> returns False, the pawn still stands on e4, but
  the squares d4, d5 and d6 have been emptied: the explosion was run on the board object
  itself, under its second name \<open>test_board\<close>.
\<close>

theorem double_king_capture_alters_board:
  "game_state position_kings = ''UNFINISHED'' \<and> turn position_kings = ''WHITE'' \<and>
   get_cell (live position_kings) 4 3 = Inr ''WP'' \<and>
   get_cell (live position_kings) 3 3 = Inr ''WK'' \<and>
   get_cell (live position_kings) 3 4 = Inr ''BP'' \<and>
   get_cell (live position_kings) 3 5 = Inr ''BK'' \<and>
   fst (make_move position_kings ''e4'' ''d5'') = Inr False \<and>
   get_cell (live (snd (make_move position_kings ''e4'' ''d5''))) 4 3 = Inr ''WP'' \<and>
   get_cell (live (snd (make_move position_kings ''e4'' ''d5''))) 3 3 = Inr ''00'' \<and>
   get_cell (live (snd (make_move position_kings ''e4'' ''d5''))) 3 4 = Inr ''00'' \<and>
   get_cell (live (snd (make_move position_kings ''e4'' ''d5''))) 3 5 = Inr ''00''"
proof (intro conjI)
  show "game_state position_kings = ''UNFINISHED''" by code_simp
  show "turn position_kings = ''WHITE''" by code_simp
  show "get_cell (live position_kings) 4 3 = Inr ''WP''" by code_simp
  show "get_cell (live position_kings) 3 3 = Inr ''WK''" by code_simp
  show "get_cell (live position_kings) 3 4 = Inr ''BP''" by code_simp
  show "get_cell (live position_kings) 3 5 = Inr ''BK''" by code_simp
  show "fst (make_move position_kings ''e4'' ''d5'') = Inr False" by code_simp
  show "get_cell (live (snd (make_move position_kings ''e4'' ''d5''))) 4 3 = Inr ''WP''" by code_simp
  show "get_cell (live (snd (make_move position_kings ''e4'' ''d5''))) 3 3 = Inr ''00''" by code_simp
  show "get_cell (live (snd (make_move position_kings ''e4'' ''d5''))) 3 4 = Inr ''00''" by code_simp
  show "get_cell (live (snd (make_move position_kings ''e4'' ''d5''))) 3 5 = Inr ''00''" by code_simp
qed

text \<open>
  Claim C2. The evaluation on the trial board is to leave the game state alone. In the
  position reached by Ng1-f3 a7-a6 Nf3-e5 a6-a5 the knight captures on f7, next to the
  black king on e8: at the end of the trial phase of \<open>atomic_landing\<close>, before the
  decision to commit, the game state already holds WHITE_WON.
\<close>

theorem trial_evaluation_sets_game_state:
  "coords ''f7'' = Inr (5, 6) \<and>
   get_cell (live position_knight) 5 6 = Inr ''BP'' \<and>
   game_state position_knight = ''UNFINISHED'' \<and>
   game_state (snd (atomic_trial position_knight 5 6)) = ''WHITE_WON''"
proof (intro conjI)
  show "coords ''f7'' = Inr (5, 6)" by code_simp
  show "get_cell (live position_knight) 5 6 = Inr ''BP''" by code_simp
  show "game_state position_knight = ''UNFINISHED''" by code_simp
  show "game_state (snd (atomic_trial position_knight 5 6)) = ''WHITE_WON''" by code_simp
qed

text \<open>
  Claim C2, amended. On an eight by eight board the trial phase returns whether a king is
  left after the explosion, and it changes the game state exactly when one king alone is
  left, to the Won value of that king's side; with no king (the capture is rejected) or
  both kings the game state stays as it is. The commit phase that follows changes
  nothing more: \<open>atomic_landing\<close> ends in the state that the trial phase left.
\<close>

theorem trial_evaluation_game_state:
  assumes "shape (live g)" and "on_board end_row end_col"
  shows "\<exists>black_present white_present g2.
     atomic_trial g end_row end_col = (Inr (black_present \<or> white_present), g2) \<and>
     king_scan (live g2) (False, False) = (black_present, white_present) \<and>
     game_state g2 =
       (if black_present = white_present then game_state g
        else if black_present then ''BLACK_WON'' else ''WHITE_WON'') \<and>
     atomic_landing g end_row end_col = (Inr (black_present \<or> white_present), g2)"
proof -
  from atomic_props [OF assms] obtain b1 bp wp where
    k: "king_scan b1 (False, False) = (bp, wp)"
    and trial: "atomic_trial g end_row end_col =
             (Inr (bp \<or> wp), g\<lparr>game_state := verdict g bp wp, heap := (heap g)(board g := b1)\<rparr>)"
    and landing: "atomic_landing g end_row end_col = atomic_trial g end_row end_col"
    by blast
  let ?g2 = "g\<lparr>game_state := verdict g bp wp, heap := (heap g)(board g := b1)\<rparr>"
  have "king_scan (live ?g2) (False, False) = (bp, wp)"
    using k by (simp add: live_def)
  moreover have "game_state ?g2 =
       (if bp = wp then game_state g else if bp then ''BLACK_WON'' else ''WHITE_WON'')"
    by (simp add: verdict_def)
  ultimately show ?thesis
    using trial landing by auto
qed

theorem trial_evaluation_game_state_witness:
  "shape (live position_knight) \<and> on_board 5 6 \<and>
   fst (atomic_trial position_knight 5 6) = Inr True \<and>
   game_state (snd (atomic_landing position_knight 5 6)) =
     game_state (snd (atomic_trial position_knight 5 6))"
proof -
  have sh: "shape (live position_knight)"
    by code_simp
  have ob: "on_board 5 6"
    by (simp add: on_board_def)
  have tv: "fst (atomic_trial position_knight 5 6) = Inr True"
    by code_simp
  from trial_evaluation_game_state [OF sh ob] obtain bp wp g2 where
    "atomic_trial position_knight 5 6 = (Inr (bp \<or> wp), g2)"
    "atomic_landing position_knight 5 6 = (Inr (bp \<or> wp), g2)"
    by blast
  then have "game_state (snd (atomic_landing position_knight 5 6)) =
     game_state (snd (atomic_trial position_knight 5 6))"
    by simp
  with sh ob tv show ?thesis
    by simp
qed

section \<open>Paths and tokens\<close>

text \<open>
  Claim C3. A rook or queen move over an occupied square is to fail in every direction.
  After a2-a3 it is Black's turn: the rook a8 moves to a5 over the pawn a7, and the
  queen d8 moves to d6 over the pawn d7; both calls return True. The two straight-line
  loops run over \<open>range(start + 1, end)\<close>, which is empty when the piece travels
  towards the smaller index, while the diagonal branch has a loop for each direction
  (lemmas \<open>straight_blocked_forward\<close> and \<open>diagonal_blocked\<close>).
\<close>

theorem rook_and_queen_jump_backwards:
  "turn position_rook = ''BLACK'' \<and>
   get_cell (live position_rook) 0 7 = Inr ''BR'' \<and>
   get_cell (live position_rook) 0 6 = Inr ''BP'' \<and>
   fst (make_move position_rook ''a8'' ''a5'') = Inr True \<and>
   get_cell (live (snd (make_move position_rook ''a8'' ''a5''))) 0 4 = Inr ''BR'' \<and>
   get_cell (live position_rook) 3 7 = Inr ''BQ'' \<and>
   get_cell (live position_rook) 3 6 = Inr ''BP'' \<and>
   fst (make_move position_rook ''d8'' ''d6'') = Inr True \<and>
   get_cell (live (snd (make_move position_rook ''d8'' ''d6''))) 3 5 = Inr ''BQ''"
proof (intro conjI)
  show "turn position_rook = ''BLACK''" by code_simp
  show "get_cell (live position_rook) 0 7 = Inr ''BR''" by code_simp
  show "get_cell (live position_rook) 0 6 = Inr ''BP''" by code_simp
  show "fst (make_move position_rook ''a8'' ''a5'') = Inr True" by code_simp
  show "get_cell (live (snd (make_move position_rook ''a8'' ''a5''))) 0 4 = Inr ''BR''" by code_simp
  show "get_cell (live position_rook) 3 7 = Inr ''BQ''" by code_simp
  show "get_cell (live position_rook) 3 6 = Inr ''BP''" by code_simp
  show "fst (make_move position_rook ''d8'' ''d6'') = Inr True" by code_simp
  show "get_cell (live (snd (make_move position_rook ''d8'' ''d6''))) 3 5 = Inr ''BQ''" by code_simp
qed

text \<open>
  Claim C4. A malformed token is to be answered with False. A token whose second
  character is not a digit makes \<open>int\<close> raise ValueError, and a token of one
  character makes the subscript raise IndexError; a wrong letter and a digit out of
  range are answered with False.
\<close>

theorem malformed_digit_raises:
  "fst (make_move init ''ax'' ''a3'') = Inl ValueError \<and>
   fst (make_move init ''a2'' ''ax'') = Inl ValueError \<and>
   fst (make_move init ''a'' ''a3'') = Inl IndexError \<and>
   fst (make_move init ''i2'' ''a3'') = Inr False \<and>
   fst (make_move init ''a9'' ''a3'') = Inr False"
proof (intro conjI)
  show "fst (make_move init ''ax'' ''a3'') = Inl ValueError" by code_simp
  show "fst (make_move init ''a2'' ''ax'') = Inl ValueError" by code_simp
  show "fst (make_move init ''a'' ''a3'') = Inl IndexError" by code_simp
  show "fst (make_move init ''i2'' ''a3'') = Inr False" by code_simp
  show "fst (make_move init ''a9'' ''a3'') = Inr False" by code_simp
qed

section \<open>The explosion\<close>

text \<open>
  Claim C5. After a committed capture every pawn in the three by three neighbourhood of
  the landing square is to remain. After e2-e4 d7-d5 the pawn e4 captures the pawn d5:
  the call returns True, and both the captured pawn on the landing square and the
  capturing pawn on its start square, one step away, are gone.
\<close>

theorem capture_removes_pawns_on_landing_and_start:
  "fst (make_move position_pawns ''e4'' ''d5'') = Inr True \<and>
   coords ''e4'' = Inr (4, 3) \<and> coords ''d5'' = Inr (3, 4) \<and>
   get_cell (live position_pawns) 3 4 = Inr ''BP'' \<and>
   get_cell (live position_pawns) 4 3 = Inr ''WP'' \<and>
   get_cell (live (snd (make_move position_pawns ''e4'' ''d5''))) 3 4 = Inr ''00'' \<and>
   get_cell (live (snd (make_move position_pawns ''e4'' ''d5''))) 4 3 = Inr ''00''"
proof (intro conjI)
  show "fst (make_move position_pawns ''e4'' ''d5'') = Inr True" by code_simp
  show "coords ''e4'' = Inr (4, 3)" by code_simp
  show "coords ''d5'' = Inr (3, 4)" by code_simp
  show "get_cell (live position_pawns) 3 4 = Inr ''BP''" by code_simp
  show "get_cell (live position_pawns) 4 3 = Inr ''WP''" by code_simp
  show "get_cell (live (snd (make_move position_pawns ''e4'' ''d5''))) 3 4 = Inr ''00''" by code_simp
  show "get_cell (live (snd (make_move position_pawns ''e4'' ''d5''))) 4 3 = Inr ''00''" by code_simp
qed

text \<open>
  Claim C5, amended. After a committed capture on an eight by eight board, the landing
  square and the start square of the capturing piece are empty, whatever they held;
  every other square next to the landing square is empty unless it held a pawn, and a
  pawn there is still in place; every square further away is unchanged.
\<close>

theorem explosion_immunity:
  assumes sh: "shape (live g)"
    and cs: "coords start_pos = Inr (sr, sc)" and ce: "coords end_pos = Inr (er, ec)"
    and capture: "get_cell (live g) er ec \<noteq> Inr ''00''"
    and succ: "fst (make_move g start_pos end_pos) = Inr True"
    and ob: "on_board r c"
  shows "get_cell (live (snd (make_move g start_pos end_pos))) r c =
           (if (r = sr \<and> c = sc) \<or> (r = er \<and> c = ec) then Inr ''00''
            else if adjacent er ec r c \<and> \<not> holds_P (live g) r c then Inr ''00''
            else get_cell (live g) r c)"
proof -
  obtain res g' where run: "make_move g start_pos end_pos = (res, g')"
    by (cases "make_move g start_pos end_pos")
  with succ have res: "res = Inr True"
    by simp
  from make_move_inversion [OF run] res cs ce obtain mp ls where
    ob1: "on_board sr sc" and ob2: "on_board er ec"
    and ls: "get_cell (live g) er ec = Inr ls"
    and am: "apply_move g mp sr sc ls er ec = (res, g')"
    by auto
  from ls capture have cap: "ls \<noteq> ''00''"
    by auto
  from apply_move_cases [OF sh ob1 ob2 am] res cap
  have "\<exists>committed. Inr True = (Inr committed :: error + bool) \<and>
        (\<forall>r c. on_board r c \<longrightarrow>
           get_cell (live g') r c =
             (if (committed \<and> r = sr \<and> c = sc) \<or> (r = er \<and> c = ec) then Inr ''00''
              else if adjacent er ec r c \<and> \<not> holds_P (live g) r c then Inr ''00''
              else get_cell (live g) r c))"
    by auto
  then have "\<forall>r c. on_board r c \<longrightarrow>
           get_cell (live g') r c =
             (if (True \<and> r = sr \<and> c = sc) \<or> (r = er \<and> c = ec) then Inr ''00''
              else if adjacent er ec r c \<and> \<not> holds_P (live g) r c then Inr ''00''
              else get_cell (live g) r c)"
    by auto
  with ob run show ?thesis
    by simp
qed

theorem explosion_immunity_witness:
  "shape (live position_knight) \<and>
   coords ''e5'' = Inr (4, 4) \<and> coords ''f7'' = Inr (5, 6) \<and>
   get_cell (live position_knight) 5 6 = Inr ''BP'' \<and>
   fst (make_move position_knight ''e5'' ''f7'') = Inr True \<and>
   get_cell (live position_knight) 4 6 = Inr ''BP'' \<and>
   get_cell (live (snd (make_move position_knight ''e5'' ''f7''))) 4 6 = Inr ''BP'' \<and>
   get_cell (live position_knight) 4 7 = Inr ''BK'' \<and>
   get_cell (live (snd (make_move position_knight ''e5'' ''f7''))) 4 7 = Inr ''00'' \<and>
   get_cell (live (snd (make_move position_knight ''e5'' ''f7''))) 4 4 = Inr ''00''"
proof -
  have sh: "shape (live position_knight)" by code_simp
  have cs: "coords ''e5'' = Inr (4, 4)" by code_simp
  have ce: "coords ''f7'' = Inr (5, 6)" by code_simp
  have ls: "get_cell (live position_knight) 5 6 = Inr ''BP''" by code_simp
  then have capture: "get_cell (live position_knight) 5 6 \<noteq> Inr ''00''" by simp
  have succ: "fst (make_move position_knight ''e5'' ''f7'') = Inr True" by code_simp
  have pawn: "get_cell (live position_knight) 4 6 = Inr ''BP''" by code_simp
  have king: "get_cell (live position_knight) 4 7 = Inr ''BK''" by code_simp
  note inst = explosion_immunity [OF sh cs ce capture succ]
  have a: "get_cell (live (snd (make_move position_knight ''e5'' ''f7''))) 4 6 = Inr ''BP''"
    using inst [of 4 6] pawn by (simp add: on_board_def adjacent_def holds_P_def)
  have b: "get_cell (live (snd (make_move position_knight ''e5'' ''f7''))) 4 7 = Inr ''00''"
    using inst [of 4 7] king by (simp add: on_board_def adjacent_def holds_P_def)
  have c: "get_cell (live (snd (make_move position_knight ''e5'' ''f7''))) 4 4 = Inr ''00''"
    using inst [of 4 4] by (simp add: on_board_def)
  from sh cs ce ls succ pawn king a b c show ?thesis
    by simp
qed

section \<open>The cells of the board\<close>

text \<open>
  Claim C9. In the initial board and after every \<open>make_move\<close> call, whatever it
  returns, each of the 64 cells holds the empty marker or one of the twelve piece codes;
  a call writes nothing but the empty marker and strings read from the board before
  the call. The state reached by any sequence of calls from the initial one satisfies
  the invariant.
\<close>

theorem board_alphabet_invariant:
  "cells_ok (live init) \<and>
   cells_ok (live (play init moves)) \<and>
   (cells_ok (live g) \<longrightarrow>
      cells_ok (live (snd (make_move g start_pos end_pos))) \<and>
      (\<forall>r c. on_board r c \<longrightarrow>
         get_cell (live (snd (make_move g start_pos end_pos))) r c = Inr ''00'' \<or>
         (\<exists>r0 c0. on_board r0 c0 \<and>
            get_cell (live (snd (make_move g start_pos end_pos))) r c = get_cell (live g) r0 c0)))"
proof (intro conjI impI)
  show "cells_ok (live init)"
    by (rule init_cells_ok)
  show "cells_ok (live (play init moves))"
    using init_cells_ok by (rule play_cells_ok)
next
  assume ok: "cells_ok (live g)"
  then show "cells_ok (live (snd (make_move g start_pos end_pos)))"
    by (rule make_move_cells_ok)
  from ok have "shape (live g)"
    by (simp add: cells_ok_def)
  from make_move_cells [OF this, of start_pos end_pos]
  show "\<forall>r c. on_board r c \<longrightarrow>
         get_cell (live (snd (make_move g start_pos end_pos))) r c = Inr ''00'' \<or>
         (\<exists>r0 c0. on_board r0 c0 \<and>
            get_cell (live (snd (make_move g start_pos end_pos))) r c = get_cell (live g) r0 c0)"
    by blast
qed

theorem board_alphabet_invariant_witness:
  "cells_ok (live position_kings) \<and>
   fst (make_move position_kings ''e4'' ''d5'') = Inr False \<and>
   cells_ok (live (snd (make_move position_kings ''e4'' ''d5'')))"
proof -
  have ok: "cells_ok (live position_kings)"
    using board_alphabet_invariant
      [of "[(''e2'', ''e4''), (''d7'', ''d5''), (''e1'', ''e2''), (''e8'', ''d7''),
            (''e2'', ''d3''), (''d7'', ''d6''), (''d3'', ''d4''), (''a7'', ''a6'')]"]
    by (simp add: position_kings_def)
  have rej: "fst (make_move position_kings ''e4'' ''d5'') = Inr False"
    by code_simp
  from board_alphabet_invariant [of _ position_kings "''e4''" "''d5''"] ok
  have "cells_ok (live (snd (make_move position_kings ''e4'' ''d5'')))"
    by blast
  with ok rej show ?thesis
    by simp
qed

section \<open>Pawns on the far edge\<close>




end
